theory Spec2Isabelle
  imports Complex_Main "HOL-Library.Word" "HOL-Library.Log_Nat"
begin

section \<open>The rope package: nodes\<close>

text \<open>
  A rope is an immutable binary tree over byte strings.  The Go interface \<open>node\<close> has
  three dynamic types in this repository:
  \<^item> \<open>leaf\<close>, a Go string (a sequence of bytes, here \<^typ>\<open>string\<close>);
  \<^item> \<open>*concat\<close>, the join of two subtrees, with the cached length of the left subtree
    (\<open>split\<close>, an \<open>int64\<close>), the cached length of the right subtree (\<open>rLen\<close>, a
    \<open>uint32\<close>, 0 when out of range) and the cached depth (\<open>treedepth\<close>, a \<open>byte\<close>);
  \<^item> \<open>Rope\<close> itself: the struct embeds \<open>node\<close>, so every method of the interface is
    promoted and \<open>Rope.Concat\<close> passes its receiver to \<open>concMany\<close> as a node.  The
    constructor \<open>ropeN\<close> is such a handle with a non-nil root, used as a node.

  An \<open>int64\<close> length or index is an \<^typ>\<open>int\<close> between \<open>- 2 ^ 63\<close> and \<open>2 ^ 63 - 1\<close>,
  and the result of every \<open>int64\<close> addition and subtraction of the code is wrapped
  into that range by \<open>int64\<close>, as Go does.  The two narrow types, \<open>depthT\<close> and
  \<open>rLenT\<close>, are machine words.
\<close>

type_synonym depthT = "8 word"
type_synonym rLenT = "32 word"

definition int64 :: "int \<Rightarrow> int" where
  "int64 x = (x + 9223372036854775808) mod 18446744073709551616 - 9223372036854775808"

definition in64 :: "int \<Rightarrow> bool" where
  "in64 x = (- 9223372036854775808 \<le> x \<and> x < 9223372036854775808)"

datatype node =
    leaf string
  | concatN (left: node) (right: node) (split: int) (rLen: rLenT) (treedepth: depthT)
  | ropeN node

text \<open>\<open>var emptyNode = node(leaf(""))\<close>, the canonical empty node.\<close>

definition emptyNode :: node where
  "emptyNode = leaf []"

fun depth :: "node \<Rightarrow> depthT" where
  "depth (leaf l) = 0"
| "depth (concatN lhs rhs sp rl d) = d"
| "depth (ropeN n) = depth n"

text \<open>
  \<open>leaf.length\<close> is \<open>int64(len(l))\<close>; \<open>(*concat).length\<close> is \<open>c.split + c.rLength()\<close>,
  an \<open>int64\<close> sum, and \<open>rLength\<close> returns the cache when it is positive and asks the
  right child otherwise.
\<close>

fun lengthN :: "node \<Rightarrow> int" and rLength :: "node \<Rightarrow> int" where
  "lengthN (leaf l) = int64 (int (length l))"
| "lengthN (concatN lhs rhs sp rl d) = int64 (sp + rLength (concatN lhs rhs sp rl d))"
| "lengthN (ropeN n) = lengthN n"
| "rLength (concatN lhs rhs sp rl d) = (if rl > 0 then uint rl else lengthN rhs)"

text \<open>
  \<open>WriteTo\<close> writes the content to a sink, left subtree first.  The sink is a byte
  buffer that never fails (\<open>Bytes\<close> uses a \<open>bytes.Buffer\<close>): the function takes the
  bytes written so far and returns them extended, with the number of bytes added.
\<close>

fun WriteTo :: "node \<Rightarrow> string \<Rightarrow> string \<times> int" where
  "WriteTo (leaf l) w = (w @ l, int64 (int (length l)))"
| "WriteTo (concatN lhs rhs sp rl d) w =
     (case WriteTo lhs w of (w1, n) \<Rightarrow>
        (case WriteTo rhs w1 of (w2, m) \<Rightarrow> (w2, int64 (n + m))))"
| "WriteTo (ropeN n) w = WriteTo n w"

subsection \<open>Concatenation with length hints\<close>

text \<open>
  \<open>conc(lhs, rhs, lhsLength, rhsLength)\<close>.  The comparison \<open>lhs == emptyNode\<close> is a
  comparison of interface values: it holds exactly for a \<open>leaf\<close> holding the empty
  string.  \<open>^rLenT(0)\<close> is the largest \<open>uint32\<close>, and \<open>depth + 1\<close> is computed in
  \<open>depthT\<close>.
\<close>

definition conc :: "node \<Rightarrow> node \<Rightarrow> int \<Rightarrow> int \<Rightarrow> node" where
  "conc lhs rhs lhsLength rhsLength =
     (if lhs = emptyNode then rhs
      else if rhs = emptyNode then lhs
      else
        let d = (if depth rhs > depth lhs then depth rhs else depth lhs);
            lhsLength = (if lhsLength \<le> 0 then lengthN lhs else lhsLength);
            rhsLength = (if rhsLength \<le> 0 then lengthN rhs else rhsLength);
            rhsLength = (if rhsLength > uint (- 1 :: rLenT) then 0 else rhsLength)
        in concatN lhs rhs lhsLength (word_of_int rhsLength) (d + 1))"

text \<open>
  \<open>concMany(first, others...)\<close> as \<open>Rope.Concat\<close> calls it: the list is cut at
  \<open>len(others) / 2\<close>, each part is combined recursively and the two results are joined.
\<close>

function concMany :: "node \<Rightarrow> node list \<Rightarrow> node" where
  "concMany first others =
     (if length others = 0 then first
      else conc (concMany first (take (length others div 2) others))
                (concMany (others ! (length others div 2))
                          (drop (length others div 2 + 1) others))
                0 0)"
  by pat_completeness auto
termination
  by (relation "measure (\<lambda>(first, others). length others)") auto

declare concMany.simps [simp del]

text \<open>
  The later \<open>concMany\<close> also accepts nil nodes, which it reads as the empty node;
  a nil interface value is \<open>None\<close>.
\<close>

function concManyNil :: "node option \<Rightarrow> node option list \<Rightarrow> node" where
  "concManyNil first others =
     (let first = (case first of None \<Rightarrow> emptyNode | Some n \<Rightarrow> n)
      in if length others = 0 then first
         else conc (concManyNil (Some first) (take (length others div 2) others))
                   (concManyNil (others ! (length others div 2))
                                (drop (length others div 2 + 1) others))
                   0 0)"
  by pat_completeness auto
termination
  by (relation "measure (\<lambda>(first, others). length others)") auto

declare concManyNil.simps [simp del]

subsection \<open>Dropping a prefix or a postfix of a node\<close>

fun dropPrefix :: "node \<Rightarrow> int \<Rightarrow> node" where
  "dropPrefix (leaf l) start =
     (if start \<ge> int64 (int (length l)) then emptyNode
      else if start \<le> 0 then leaf l
      else leaf (drop (nat start) l))"
| "dropPrefix (concatN lhs rhs sp rl d) start =
     (if start \<le> 0 then concatN lhs rhs sp rl d
      else if start < sp then conc (dropPrefix lhs start) rhs (int64 (sp - start)) (uint rl)
      else dropPrefix rhs (int64 (start - sp)))"
| "dropPrefix (ropeN n) start = dropPrefix n start"

fun dropPostfix :: "node \<Rightarrow> int \<Rightarrow> node" where
  "dropPostfix (leaf l) end' =
     (if end' \<ge> int64 (int (length l)) then leaf l
      else if end' \<le> 0 then emptyNode
      else leaf (take (nat end') l))"
| "dropPostfix (concatN lhs rhs sp rl d) end' =
     (if end' \<le> 0 then emptyNode
      else if end' \<le> sp then dropPostfix lhs end'
      else if end' \<ge> int64 (sp + rLength (concatN lhs rhs sp rl d))
      then concatN lhs rhs sp rl d
      else conc lhs (dropPostfix rhs (int64 (end' - sp))) sp (int64 (end' - sp)))"
| "dropPostfix (ropeN n) end' = dropPostfix n end'"

section \<open>The handle\<close>

text \<open>\<open>type Rope struct { node }\<close>: the root may be nil, which is \<open>None\<close>.\<close>

datatype Rope = Rope (node: "node option")

definition emptyRope :: Rope where
  "emptyRope = Rope (Some emptyNode)"

definition New :: "string \<Rightarrow> Rope" where
  "New arg = (if length arg = 0 then emptyRope else Rope (Some (leaf arg)))"

definition Rope_WriteTo :: "Rope \<Rightarrow> string \<Rightarrow> string \<times> int" where
  "Rope_WriteTo r w = (case node r of None \<Rightarrow> (w, 0) | Some n \<Rightarrow> WriteTo n w)"

definition Len :: "Rope \<Rightarrow> int" where
  "Len r = (case node r of None \<Rightarrow> 0 | Some n \<Rightarrow> lengthN n)"

text \<open>
  \<open>Bytes\<close> writes the rope into a fresh buffer; \<open>r.Len()\<close> is only the capacity the
  buffer starts with.  \<open>String\<close> returns a leaf root directly.
\<close>

definition Bytes :: "Rope \<Rightarrow> string" where
  "Bytes r = (case node r of None \<Rightarrow> [] | Some n \<Rightarrow> fst (Rope_WriteTo r []))"

definition String :: "Rope \<Rightarrow> string" where
  "String r = (case node r of None \<Rightarrow> [] | Some (leaf l) \<Rightarrow> l | Some n \<Rightarrow> Bytes r)"

text \<open>
  \<open>Rope.Concat(rhs...)\<close>: while the receiver has a nil root the next argument takes its
  place; with no argument left the receiver is returned; otherwise the receiver, as a
  node, is joined with the non-nil roots of the arguments.
\<close>

fun nonNil :: "Rope list \<Rightarrow> node list" where
  "nonNil [] = []"
| "nonNil (item # rhs) =
     (case node item of None \<Rightarrow> nonNil rhs | Some n \<Rightarrow> n # nonNil rhs)"

fun Concat :: "Rope \<Rightarrow> Rope list \<Rightarrow> Rope" where
  "Concat r [] = r"
| "Concat (Rope None) (x # rhs) = Concat x rhs"
| "Concat (Rope (Some n)) (x # rhs) = Rope (Some (concMany (ropeN n) (nonNil (x # rhs))))"

text \<open>
  \<open>DropPrefix\<close>, \<open>DropPostfix\<close> and \<open>Slice\<close> of the handle.  \<open>DropPostfix\<close> calls
  \<open>r.node.dropPrefix(end)\<close>.
\<close>

definition DropPrefix :: "Rope \<Rightarrow> int \<Rightarrow> Rope" where
  "DropPrefix r start =
     (case node r of
        None \<Rightarrow> r
      | Some n \<Rightarrow> if start = 0 then r else Rope (Some (dropPrefix n start)))"

definition DropPostfix :: "Rope \<Rightarrow> int \<Rightarrow> Rope" where
  "DropPostfix r end' =
     (case node r of
        None \<Rightarrow> r
      | Some n \<Rightarrow> Rope (Some (dropPrefix n end')))"

definition Slice :: "Rope \<Rightarrow> int \<Rightarrow> int \<Rightarrow> Rope" where
  "Slice r start end' =
     (let start = (if start < 0 then 0 else start)
      in if start \<ge> end' then emptyRope
         else DropPrefix (DropPostfix r end') start)"

section \<open>The two-argument \<open>conc\<close> of concat.go\<close>

text \<open>
  concat.go and leaf.go hold the nodes in their first form: \<open>concat\<close> is a struct
  value with the fields \<open>left\<close>, \<open>right\<close>, \<open>treedepth\<close> (an \<open>int\<close>) and \<open>leftLen\<close>,
  its length asks the right child, and \<open>conc\<close> takes no length hints.  A path of
  \<open>2 ^ 31\<close> nodes does not fit into memory, so the \<open>int\<close> depth is an \<^typ>\<open>int\<close>; the
  \<open>int64\<close> length wraps as above.
\<close>

datatype node0 =
    leaf0 string
  | concat0 (left0: node0) (right0: node0) (treedepth0: int) (leftLen0: int)

definition emptyNode0 :: node0 where
  "emptyNode0 = leaf0 []"

fun depth0 :: "node0 \<Rightarrow> int" where
  "depth0 (leaf0 l) = 0"
| "depth0 (concat0 lhs rhs d ll) = d"

fun length0 :: "node0 \<Rightarrow> int" where
  "length0 (leaf0 l) = int64 (int (length l))"
| "length0 (concat0 lhs rhs d ll) = int64 (ll + length0 rhs)"

definition conc0 :: "node0 \<Rightarrow> node0 \<Rightarrow> node0" where
  "conc0 lhs rhs =
     (if lhs = emptyNode0 then rhs
      else if rhs = emptyNode0 then lhs
      else
        let d = (if depth0 rhs > depth0 lhs then depth0 rhs else depth0 lhs)
        in concat0 lhs rhs (d + 1) (length0 lhs))"

section \<open>Run-time panics and Go arithmetic\<close>

text \<open>
  The run-time panics the code can raise.  \<open>BucketGrew\<close> is the \<open>panic\<close> of
  \<open>Rebalance\<close> itself.  A function that can panic returns \<open>panic + 'a\<close>; one that
  also contains a loop which may run forever returns an \<open>option\<close> of that, \<open>None\<close>
  standing for a call that does not return.
\<close>

datatype panic =
    IndexOutOfRange
  | SliceBoundsOutOfRange
  | NilDereference
  | InterfaceConversion
  | BucketGrew int int

type_synonym 'a result = "(panic + 'a) option"

definition andThen :: "'a result \<Rightarrow> ('a \<Rightarrow> 'b result) \<Rightarrow> 'b result" where
  "andThen m f =
     (case m of None \<Rightarrow> None | Some (Inl e) \<Rightarrow> Some (Inl e) | Some (Inr x) \<Rightarrow> f x)"

text \<open>\<open>xs[i]\<close> on a slice: a panic outside \<open>0 \<le> i < len(xs)\<close>.\<close>

definition index :: "'a list \<Rightarrow> int \<Rightarrow> panic + 'a" where
  "index xs i = (if 0 \<le> i \<and> i < int (length xs) then Inr (xs ! nat i) else Inl IndexOutOfRange)"

text \<open>Go's integer division truncates towards zero.\<close>

definition tdiv :: "int \<Rightarrow> int \<Rightarrow> int" where
  "tdiv a b = sgn a * sgn b * (\<bar>a\<bar> div \<bar>b\<bar>)"

section \<open>The Fibonacci cache and the binary search\<close>

text \<open>The package variable \<open>fibCache\<close>, as it is initialised.\<close>

definition fibCache :: "int list" where
  "fibCache =
     [1, 2, 3, 5, 8, 13, 21, 34, 55, 89, 144, 233, 377, 610, 987,
      1597, 2584, 4181, 6765, 10946, 17711, 28657, 46368, 75025, 121393,
      196418, 317811, 514229, 832040]"

text \<open>
  \<open>binSearch(N, arr)\<close>: the loop keeps \<open>start\<close> and \<open>end\<close>, reads \<open>arr[mid]\<close> and
  returns from inside the loop on an exact hit.  \<open>start\<close> and \<open>end\<close> are indices between
  \<open>- 1\<close> and \<open>len(arr)\<close>; a slice of \<open>int64\<close> has fewer than \<open>2 ^ 60\<close> elements, so
  \<open>start + end\<close> does not wrap.
\<close>

function binSearch_loop :: "int \<Rightarrow> int list \<Rightarrow> int \<Rightarrow> int \<Rightarrow> panic + int" where
  "binSearch_loop N arr start end' =
     (if end' - start > 1 then
        (case index arr (tdiv (start + end') 2) of
           Inl e \<Rightarrow> Inl e
         | Inr elt \<Rightarrow>
             if elt < N then binSearch_loop N arr (tdiv (start + end') 2) end'
             else if N < elt then binSearch_loop N arr start (tdiv (start + end') 2)
             else Inr (tdiv (start + end') 2))
      else Inr end')"
  by pat_completeness auto
termination
proof (relation "measure (\<lambda>(N, arr, start, end'). nat (end' - start))")
  show "wf (measure (\<lambda>(N, arr, start, end'). nat (end' - start)))"
    by simp
next
  fix N :: int and arr :: "int list" and start end' x2 :: int
  assume gap: "1 < end' - start"
  have "start < tdiv (start + end') 2 \<and> tdiv (start + end') 2 < end'"
    using gap by (cases "0 \<le> start + end'") (auto simp: tdiv_def sgn_if abs_if)
  then show "((N, arr, tdiv (start + end') 2, end'), (N, arr, start, end'))
               \<in> measure (\<lambda>(N, arr, start, end'). nat (end' - start))"
    by simp
next
  fix N :: int and arr :: "int list" and start end' x2 :: int
  assume gap: "1 < end' - start"
  have "start < tdiv (start + end') 2 \<and> tdiv (start + end') 2 < end'"
    using gap by (cases "0 \<le> start + end'") (auto simp: tdiv_def sgn_if abs_if)
  then show "((N, arr, start, tdiv (start + end') 2), (N, arr, start, end'))
               \<in> measure (\<lambda>(N, arr, start, end'). nat (end' - start))"
    by simp
qed

declare binSearch_loop.simps [simp del]

definition binSearch :: "int \<Rightarrow> int list \<Rightarrow> panic + int" where
  "binSearch N arr = binSearch_loop N arr (- 1) (int (length arr))"

text \<open>
  \<open>extendFibs(N)\<close> appends to the cache until its last number reaches \<open>N\<close>.  The
  functions take the current value of \<open>fibCache\<close> and return the new one; the lock is
  not modelled.
\<close>

partial_function (option) extendFibs_loop ::
    "int \<Rightarrow> int \<Rightarrow> int \<Rightarrow> int list \<Rightarrow> int list option" where
  "extendFibs_loop N a b cache =
     (if b < N then extendFibs_loop N b (int64 (a + b)) (cache @ [int64 (a + b)])
      else Some cache)"

declare extendFibs_loop.simps [code]

definition extendFibs :: "int list \<Rightarrow> int \<Rightarrow> int list result" where
  "extendFibs cache N =
     (case index cache (int (length cache) - 2) of
        Inl e \<Rightarrow> Some (Inl e)
      | Inr a \<Rightarrow>
          (case index cache (int (length cache) - 1) of
             Inl e \<Rightarrow> Some (Inl e)
           | Inr b \<Rightarrow> map_option Inr (extendFibs_loop N a b cache)))"

text \<open>
  \<open>getFibCache(N)\<close> reads \<open>fibCache[len(fibCache)]\<close> before it decides whether to
  extend the cache.  The result is the cache, which is also the new value of the
  package variable.
\<close>

definition getFibCache :: "int list \<Rightarrow> int \<Rightarrow> int list result" where
  "getFibCache cache N =
     (case index cache (int (length cache)) of
        Inl e \<Rightarrow> Some (Inl e)
      | Inr x \<Rightarrow> if x < N then extendFibs cache N else Some (Inr cache))"

definition reverseFib :: "int list \<Rightarrow> int \<Rightarrow> (int \<times> int list) result" where
  "reverseFib cache N =
     andThen (getFibCache cache N) (\<lambda>fibs.
       (case binSearch N fibs of
          Inl e \<Rightarrow> Some (Inl e)
        | Inr i \<Rightarrow> Some (Inr (i, fibs))))"

text \<open>\<open>isBalanced\<close> returns its answer with the cache it leaves behind.\<close>

definition isBalanced :: "int list \<Rightarrow> Rope \<Rightarrow> (bool \<times> int list) result" where
  "isBalanced cache r =
     (case node r of
        None \<Rightarrow> Some (Inr (True, cache))
      | Some n \<Rightarrow>
          if n = emptyNode then Some (Inr (True, cache))
          else andThen (reverseFib cache (Len r)) (\<lambda>(i, fibs).
                 Some (Inr (uint (depth n) \<le> i - 2, fibs))))"

section \<open>Slicing a node\<close>

text \<open>
  \<open>(*concat).slice(start, end)\<close>.  The method of \<open>leaf\<close> is not part of the sources
  at hand, so it is the parameter \<open>leafSlice\<close>.
\<close>

fun sliceN :: "(string \<Rightarrow> int \<Rightarrow> int \<Rightarrow> node) \<Rightarrow> node \<Rightarrow> int \<Rightarrow> int \<Rightarrow> node" where
  "sliceN leafSlice (leaf l) start end' = leafSlice l start end'"
| "sliceN leafSlice (concatN lhs rhs sp rl d) start end' =
     (if end' \<le> sp then sliceN leafSlice lhs start end'
      else if start \<ge> sp
      then sliceN leafSlice rhs (int64 (start - sp)) (int64 (end' - sp))
      else if start \<le> 0 \<and> end' \<ge> int64 (sp + lengthN rhs) then concatN lhs rhs sp rl d
      else
        conc (if start > 0 \<or> end' < sp then sliceN leafSlice lhs start end' else lhs)
             (if start > sp \<or> end' < int64 (sp + lengthN rhs)
              then sliceN leafSlice rhs (int64 (start - sp)) (int64 (end' - sp)) else rhs)
             (if start > 0 \<or> end' < sp then - 1 else sp)
             (if start > sp \<or> end' < int64 (sp + lengthN rhs) then - 1 else uint rl))"
| "sliceN leafSlice (ropeN n) start end' = sliceN leafSlice n start end'"

section \<open>Rebalancing\<close>

text \<open>
  \<open>walkLeaves(f)\<close> calls \<open>f\<close> on the leaves from left to right.  The callback of
  \<open>Rebalance\<close> changes the scratch array and may panic, so \<open>f\<close> takes a state and
  returns the new one or the panic, which ends the walk.
\<close>

text \<open>
  Modelled from the spec: the method \<open>walkLeaves\<close> of \<open>leaf\<close> is missing from the sources;
  the leaf is itself the one leaf that is visited (``for each leaf, treat it as a candidate
  node of its own length'').  The equation for \<open>concatN\<close> is the source's.
\<close>

fun walkLeaves :: "node \<Rightarrow> (string \<Rightarrow> 's \<Rightarrow> panic + 's) \<Rightarrow> 's \<Rightarrow> panic + 's" where
  "walkLeaves (leaf l) f s = f l s"
| "walkLeaves (concatN lhs rhs sp rl d) f s =
     (case walkLeaves lhs f s of Inl e \<Rightarrow> Inl e | Inr s' \<Rightarrow> walkLeaves rhs f s')"
| "walkLeaves (ropeN n) f s = walkLeaves n f s"

text \<open>\<open>var Debug = true\<close>, and the element type \<open>B\<close> of the scratch array.\<close>

definition Debug :: bool where
  "Debug = True"

datatype B = B (B_n: "node option") (B_len: int)

text \<open>
  The loop \<open>for i := bucket; i >= 0; i--\<close> inside the callback.  Every round reads
  \<open>scratch[bucket]\<close>; a filled entry is joined to the right of \<open>n\<close> and its node is
  cleared.
\<close>

function rebalanceMerge ::
    "int \<Rightarrow> int \<Rightarrow> node \<Rightarrow> int \<Rightarrow> B list \<Rightarrow> panic + (node \<times> int \<times> B list)" where
  "rebalanceMerge i bucket n nLen scratch =
     (if i \<ge> 0 then
        (case index scratch bucket of
           Inl e \<Rightarrow> Inl e
         | Inr b \<Rightarrow>
             (case B_n b of
                None \<Rightarrow> rebalanceMerge (i - 1) bucket n nLen scratch
              | Some bn \<Rightarrow>
                  rebalanceMerge (i - 1) bucket (conc n bn nLen (B_len b))
                    (int64 (nLen + B_len b))
                    (scratch[nat bucket := B None (B_len b)])))
      else Inr (n, nLen, scratch))"
  by pat_completeness auto
termination
  by (relation "measure (\<lambda>(i, bucket, n, nLen, scratch). nat (i + 1))") auto

declare rebalanceMerge.simps [simp del]

definition rebalanceLeaf :: "int list \<Rightarrow> string \<Rightarrow> B list \<Rightarrow> panic + B list" where
  "rebalanceLeaf fibs l scratch =
     (case binSearch (lengthN (leaf l)) fibs of
        Inl e \<Rightarrow> Inl e
      | Inr bucket \<Rightarrow>
          (case rebalanceMerge bucket bucket (leaf l) (lengthN (leaf l)) scratch of
             Inl e \<Rightarrow> Inl e
           | Inr (n, nLen, scratch) \<Rightarrow>
               (case (if Debug then binSearch nLen fibs else Inr bucket) of
                  Inl e \<Rightarrow> Inl e
                | Inr b \<Rightarrow>
                    if b \<noteq> bucket then Inl (BucketGrew bucket b)
                    else if 0 \<le> bucket \<and> bucket < int (length scratch)
                    then Inr (scratch[nat bucket := B (Some n) nLen])
                    else Inl IndexOutOfRange)))"

text \<open>The loop over the scratch array that joins what is left, lowest index first.\<close>

fun rebalanceFold :: "B list \<Rightarrow> B \<Rightarrow> B" where
  "rebalanceFold [] nw = nw"
| "rebalanceFold (b # bs) nw =
     rebalanceFold bs
       (case B_n b of
          None \<Rightarrow> nw
        | Some bn \<Rightarrow>
            (case B_n nw of
               None \<Rightarrow> b
             | Some nwn \<Rightarrow>
                 B (Some (conc bn nwn (B_len b) (B_len nw))) (int64 (B_len nw + B_len b))))"

text \<open>
  \<open>Rebalance\<close>: the length, the cache, the scratch array, the walk (a method call on
  \<open>r.node\<close>, which may be nil), the final loop.
\<close>

definition Rebalance :: "int list \<Rightarrow> Rope \<Rightarrow> (Rope \<times> int list) result" where
  "Rebalance cache r =
     andThen (getFibCache cache (Len r)) (\<lambda>fibs.
       (case binSearch (Len r) fibs of
          Inl e \<Rightarrow> Some (Inl e)
        | Inr k \<Rightarrow>
            (case node r of
               None \<Rightarrow> Some (Inl NilDereference)
             | Some nd \<Rightarrow>
                 (case walkLeaves nd (rebalanceLeaf fibs) (replicate (nat (1 + k)) (B None 0)) of
                    Inl e \<Rightarrow> Some (Inl e)
                  | Inr scratch \<Rightarrow>
                      Some (Inr (if B_n (rebalanceFold scratch (B None 0)) = node r then r
                                 else Rope (B_n (rebalanceFold scratch (B None 0))),
                                 fibs))))))"

section \<open>The reader\<close>

text \<open>
  \<open>Reader\<close> holds the stack of \<open>*concat\<close> nodes, the current leaf and the position in
  it.  The top of the stack is the last element.
\<close>

record Reader =
  stack :: "node list"
  cur :: string
  pos :: int

text \<open>
  \<open>pushSubtree\<close> walks down the left children.  A node that is neither a \<open>leaf\<close> nor a
  \<open>*concat\<close> fails the type assertion \<open>n.(*concat)\<close>.
\<close>

fun pushSubtree :: "Reader \<Rightarrow> node \<Rightarrow> panic + Reader" where
  "pushSubtree r (leaf l) = Inr (r\<lparr>cur := l, pos := 0\<rparr>)"
| "pushSubtree r (concatN lhs rhs sp rl d) =
     pushSubtree (r\<lparr>stack := stack r @ [concatN lhs rhs sp rl d]\<rparr>) lhs"
| "pushSubtree r (ropeN n) = Inl InterfaceConversion"

definition NewReader :: "Rope \<Rightarrow> panic + Reader" where
  "NewReader rope =
     (case node rope of
        None \<Rightarrow> Inr \<lparr>stack = [], cur = [], pos = 0\<rparr>
      | Some n \<Rightarrow> pushSubtree \<lparr>stack = [], cur = [], pos = 0\<rparr> n)"

text \<open>
  \<open>nextNode\<close> cuts the stack to \<open>r.stack[:len(r.stack)-1]\<close>, a panic when the stack is
  empty, and pushes the subtree of the new top.
\<close>

definition nextNode :: "Reader \<Rightarrow> panic + Reader" where
  "nextNode r =
     (if int (length (stack r)) - 1 < 0 then Inl SliceBoundsOutOfRange
      else
        let r' = r\<lparr>stack := take (length (stack r) - 1) (stack r)\<rparr>
        in if length (stack r') \<noteq> 0
           then pushSubtree r' (stack r' ! (length (stack r') - 1))
           else Inr r')"

text \<open>
  \<open>Read(p)\<close> with \<open>len(p) = k\<close>.  The loop \<open>for r.pos == len(r.cur)\<close> either leaves
  with the reader positioned on unread bytes or returns \<open>(0, io.EOF)\<close>; it may also run
  forever.  The result is the reader, the bytes copied into \<open>p\<close> and whether the error is
  \<open>io.EOF\<close>.
\<close>

partial_function (option) Read_loop :: "Reader \<Rightarrow> (panic + Reader \<times> bool) option" where
  "Read_loop r =
     (if pos r = int (length (cur r)) then
        (case nextNode r of
           Inl e \<Rightarrow> Some (Inl e)
         | Inr r' \<Rightarrow> if length (stack r') = 0 then Some (Inr (r', True)) else Read_loop r')
      else Some (Inr (r, False)))"

declare Read_loop.simps [code]

definition Read :: "Reader \<Rightarrow> nat \<Rightarrow> (Reader \<times> string \<times> bool) result" where
  "Read r k =
     andThen (Read_loop r) (\<lambda>(r', eof).
       if eof then Some (Inr (r', [], True))
       else Some (Inr (r'\<lparr>pos := pos r' + int (length (take k (drop (nat (pos r')) (cur r'))))\<rparr>,
                       take k (drop (nat (pos r')) (cur r')), False)))"

text \<open>
  Reading to exhaustion, as the loop of \<open>TestShortRead\<close> in reader_test.go does it:
  \<open>for err == nil { n, err = r.Read(buf[:]); result = append(result, buf[:n]...) }\<close>,
  with a buffer of \<open>k\<close> bytes.  The loop ends at the first error, which the test expects
  to be \<open>io.EOF\<close>.
\<close>

partial_function (option) readAll :: "Reader \<Rightarrow> nat \<Rightarrow> string \<Rightarrow> (panic + string) option" where
  "readAll r k result =
     (case Read r k of
        None \<Rightarrow> None
      | Some (Inl e) \<Rightarrow> Some (Inl e)
      | Some (Inr (r', buf, eof)) \<Rightarrow>
          if eof then Some (Inr (result @ buf)) else readAll r' k (result @ buf))"

declare readAll.simps [code]

section \<open>Content and consistency of a tree\<close>

text \<open>The content of a node is what \<open>WriteTo\<close> adds to an empty sink.\<close>

definition content :: "node \<Rightarrow> string" where
  "content n = fst (WriteTo n [])"

text \<open>
  A tree is consistent when every \<open>concat\<close> in it caches the true length of its left
  subtree in \<open>split\<close> and either nothing or the true length of its right subtree in
  \<open>rLen\<close>.
\<close>

fun valid :: "node \<Rightarrow> bool" where
  "valid (leaf l) = True"
| "valid (concatN lhs rhs sp rl d) =
     (valid lhs \<and> valid rhs \<and> sp = lengthN lhs \<and> (rl = 0 \<or> uint rl = lengthN rhs))"
| "valid (ropeN n) = valid n"

text \<open>The content of a node fits when it is shorter than \<open>2 ^ 63\<close> bytes.\<close>

definition fits :: "node \<Rightarrow> bool" where
  "fits n = (int (length (content n)) < 9223372036854775808)"

text \<open>A handle is consistent when its root, if there is one, is consistent and fits.\<close>

definition validRope :: "Rope \<Rightarrow> bool" where
  "validRope r = (case node r of None \<Rightarrow> True | Some n \<Rightarrow> valid n \<and> fits n)"

text \<open>
  An entry of the scratch array of \<open>Rebalance\<close> is consistent when its node, if there
  is one, is consistent, fits, and \<open>len\<close> is the length of that node.  \<open>scratchLen\<close>
  counts the bytes that the nodes of the array hold.
\<close>

definition entryOK :: "B \<Rightarrow> bool" where
  "entryOK b =
     (case B_n b of None \<Rightarrow> True | Some n \<Rightarrow> valid n \<and> fits n \<and> B_len b = lengthN n)"

definition scratchOK :: "B list \<Rightarrow> bool" where
  "scratchOK scratch = list_all entryOK scratch"

definition entryLen :: "B \<Rightarrow> int" where
  "entryLen b = (case B_n b of None \<Rightarrow> 0 | Some n \<Rightarrow> int (length (content n)))"

definition scratchLen :: "B list \<Rightarrow> int" where
  "scratchLen scratch = sum_list (map entryLen scratch)"

text \<open>
  The rope that \<open>r = New("a")\<close> followed by \<open>k\<close> times \<open>r = r.Concat(r)\<close> builds: its
  content has \<open>2 ^ k\<close> bytes and, the subtrees being shared, it takes \<open>k\<close> nodes.
\<close>

fun selfConcat :: "nat \<Rightarrow> Rope" where
  "selfConcat 0 = New ''a''"
| "selfConcat (Suc k) = Concat (selfConcat k) [selfConcat k]"

section \<open>Content of the operations on nodes\<close>

lemma WriteTo_ex: "\<exists>c k. \<forall>w. WriteTo n w = (w @ c, k)"
proof (induction n)
  case (leaf l)
  show ?case by simp
next
  case (concatN lhs rhs sp rl d)
  from concatN.IH(1) obtain a ka where a: "\<And>w. WriteTo lhs w = (w @ a, ka)"
    by blast
  from concatN.IH(2) obtain b kb where b: "\<And>w. WriteTo rhs w = (w @ b, kb)"
    by blast
  have "\<forall>w. WriteTo (concatN lhs rhs sp rl d) w = (w @ (a @ b), int64 (ka + kb))"
    by (simp add: a b)
  then show ?case by blast
next
  case (ropeN n)
  then show ?case by simp
qed

lemma WriteTo_content: "fst (WriteTo n w) = w @ content n"
proof -
  from WriteTo_ex obtain c k where c: "\<And>w. WriteTo n w = (w @ c, k)"
    by blast
  have "content n = c"
    by (simp add: content_def c)
  then show ?thesis
    by (simp add: c)
qed

lemma content_leaf [simp]: "content (leaf l) = l"
  by (simp add: content_def)

lemma content_concatN [simp]: "content (concatN lhs rhs sp rl d) = content lhs @ content rhs"
proof -
  obtain ka where a: "WriteTo lhs [] = (content lhs, ka)"
    using WriteTo_content[of lhs "[]"] by (cases "WriteTo lhs []") simp
  obtain kb where b: "WriteTo rhs (content lhs) = (content lhs @ content rhs, kb)"
    using WriteTo_content[of rhs "content lhs"] by (cases "WriteTo rhs (content lhs)") simp
  have "WriteTo (concatN lhs rhs sp rl d) [] = (content lhs @ content rhs, int64 (ka + kb))"
    by (subst WriteTo.simps) (simp add: a b)
  then show ?thesis
    by (simp only: content_def[of "concatN lhs rhs sp rl d"] fst_conv)
qed

lemma content_ropeN [simp]: "content (ropeN n) = content n"
  by (simp add: content_def)

lemma content_emptyNode [simp]: "content emptyNode = []"
  by (simp add: emptyNode_def)

lemma content_conc [simp]: "content (conc lhs rhs hl hr) = content lhs @ content rhs"
  by (simp add: conc_def Let_def)

lemma concMany_Nil [simp]: "concMany first [] = first"
  by (simp add: concMany.simps[of first "[]"])

lemma concMany_rec:
  "others \<noteq> [] \<Longrightarrow>
   concMany first others =
     conc (concMany first (take (length others div 2) others))
          (concMany (others ! (length others div 2)) (drop (length others div 2 + 1) others)) 0 0"
  by (subst concMany.simps) simp

lemma split_at_middle:
  "others \<noteq> [] \<Longrightarrow>
   others = take (length others div 2) others @
            (others ! (length others div 2)) # drop (length others div 2 + 1) others"
  by (simp add: id_take_nth_drop)

lemma content_concMany:
  "content (concMany first others) = content first @ concat (map content others)"
proof (induction first others rule: concMany.induct)
  case (1 first others)
  show ?case
  proof (cases "others = []")
    case True then show ?thesis by simp
  next
    case False
    let ?k = "length others div 2"
    let ?a = "take ?k others" and ?x = "others ! ?k" and ?b = "drop (?k + 1) others"
    have ne: "length others \<noteq> 0" using False by simp
    have o: "others = ?a @ ?x # ?b"
      by (rule split_at_middle[OF False])
    have "concat (map content others) = concat (map content (?a @ ?x # ?b))"
      using o by simp
    then have c: "concat (map content others) =
       concat (map content ?a) @ content ?x @ concat (map content ?b)"
      by simp
    have "content (concMany first others) = content (concMany first ?a) @ content (concMany ?x ?b)"
      by (simp only: concMany_rec[OF False] content_conc)
    also have "\<dots> = (content first @ concat (map content ?a)) @ (content ?x @ concat (map content ?b))"
      by (simp only: "1.IH"(1)[OF ne] "1.IH"(2)[OF ne])
    finally show ?thesis
      by (simp only: c append_assoc)
  qed
qed

lemma String_content: "String r = (case node r of None \<Rightarrow> [] | Some n \<Rightarrow> content n)"
proof (cases "node r")
  case None
  then show ?thesis by (simp add: String_def)
next
  case (Some n)
  have "Bytes r = content n"
    using Some by (simp add: Bytes_def Rope_WriteTo_def WriteTo_content)
  then show ?thesis
    using Some by (cases n) (simp_all add: String_def)
qed

lemma concat_nonNil: "concat (map content (nonNil rhs)) = concat (map String rhs)"
proof (induction rhs)
  case Nil
  show ?case by simp
next
  case (Cons item rhs)
  then show ?case
    by (cases "node item") (simp_all add: String_content)
qed

lemma String_Concat: "String (Concat a bs) = String a @ concat (map String bs)"
proof (induction a bs rule: Concat.induct)
  case (1 r)
  show ?case by simp
next
  case (2 x rhs)
  then show ?case by (simp add: String_content)
next
  case (3 n x rhs)
  have "String (Concat (Rope (Some n)) (x # rhs)) = content n @ concat (map content (nonNil (x # rhs)))"
    by (simp add: String_content content_concMany)
  also have "\<dots> = content n @ concat (map String (x # rhs))"
    by (simp only: concat_nonNil)
  also have "content n = String (Rope (Some n))"
    by (simp add: String_content)
  finally show ?case .
qed

subsection \<open>The identities of \<open>conc\<close>\<close>

lemma conc0_left_empty: "conc0 emptyNode0 rhs = rhs"
  by (simp add: conc0_def)

lemma conc0_right_empty: "conc0 lhs emptyNode0 = lhs"
  by (simp add: conc0_def)

lemma conc0_build:
  "lhs \<noteq> emptyNode0 \<Longrightarrow> rhs \<noteq> emptyNode0 \<Longrightarrow>
   conc0 lhs rhs = concat0 lhs rhs (1 + max (depth0 lhs) (depth0 rhs)) (length0 lhs)"
  by (simp add: conc0_def Let_def max_def)

lemma conc_left_empty: "conc emptyNode rhs hl hr = rhs"
  by (simp add: conc_def)

lemma conc_right_empty: "conc lhs emptyNode hl hr = lhs"
  by (simp add: conc_def)

lemma conc_build:
  "lhs \<noteq> emptyNode \<Longrightarrow> rhs \<noteq> emptyNode \<Longrightarrow>
   left (conc lhs rhs 0 0) = lhs \<and> right (conc lhs rhs 0 0) = rhs \<and>
   split (conc lhs rhs 0 0) = lengthN lhs \<and>
   treedepth (conc lhs rhs 0 0) = 1 + max (depth lhs) (depth rhs)"
  by (auto simp: conc_def Let_def max_def)

lemma conc_depth_byte:
  "lhs \<noteq> emptyNode \<Longrightarrow> rhs \<noteq> emptyNode \<Longrightarrow>
   unat (depth (conc lhs rhs hl hr)) = (1 + max (unat (depth lhs)) (unat (depth rhs))) mod 256"
  by (auto simp: conc_def Let_def unat_word_ariths max_def word_less_nat_alt)




section \<open>Depth of a balanced concatenation\<close>

lemma depth_conc_le:
  "unat (depth (conc lhs rhs hl hr)) \<le> 1 + max (unat (depth lhs)) (unat (depth rhs))"
proof (cases "lhs = emptyNode \<or> rhs = emptyNode")
  case True
  then show ?thesis by (auto simp: conc_def)
next
  case False
  then have "unat (depth (conc lhs rhs hl hr)) =
      (1 + max (unat (depth lhs)) (unat (depth rhs))) mod 256"
    by (simp add: conc_depth_byte)
  then show ?thesis by simp
qed

lemma ceillog2_halves:
  assumes "0 < n"
  shows "1 + max (ceillog2 (1 + n div 2)) (ceillog2 (n - n div 2)) \<le> ceillog2 (1 + n)"
proof -
  have r: "ceillog2 (1 + n) = 1 + ceillog2 (1 + n div 2)"
    using assms by (subst ceillog2_rec) simp
  have "ceillog2 (n - n div 2) \<le> ceillog2 (1 + n div 2)"
    by (rule ceillog2_mono) simp
  then show ?thesis
    using r by simp
qed

lemma concMany_depth_le:
  "\<forall>x \<in> set (first # others). depth x = 0 \<Longrightarrow>
   unat (depth (concMany first others)) \<le> ceillog2 (1 + length others)"
proof (induction first others rule: concMany.induct)
  case (1 first others)
  show ?case
  proof (cases "others = []")
    case True
    then show ?thesis using "1.prems" by simp
  next
    case False
    let ?k = "length others div 2"
    let ?a = "take ?k others" and ?x = "others ! ?k" and ?b = "drop (?k + 1) others"
    have ne: "length others \<noteq> 0" using False by simp
    have lt: "?k < length others" using False by simp
    have pa: "\<forall>x \<in> set (first # ?a). depth x = 0"
      using "1.prems" by (auto dest: in_set_takeD)
    have pb: "\<forall>x \<in> set (?x # ?b). depth x = 0"
      using "1.prems" lt by (auto dest: in_set_dropD)
    have la: "length ?a = ?k" using lt by simp
    have lb: "1 + length ?b = length others - ?k" using lt by simp
    have da: "unat (depth (concMany first ?a)) \<le> ceillog2 (1 + ?k)"
      using "1.IH"(1)[OF ne pa] la by simp
    have db: "unat (depth (concMany ?x ?b)) \<le> ceillog2 (length others - ?k)"
      using "1.IH"(2)[OF ne pb] lb by simp
    have "unat (depth (concMany first others)) \<le>
        1 + max (unat (depth (concMany first ?a))) (unat (depth (concMany ?x ?b)))"
      by (simp only: concMany_rec[OF False] depth_conc_le)
    also have "\<dots> \<le> 1 + max (ceillog2 (1 + ?k)) (ceillog2 (length others - ?k))"
      using da db by (intro add_left_mono max.mono)
    also have "\<dots> \<le> ceillog2 (1 + length others)"
      using ceillog2_halves[of "length others"] False by simp
    finally show ?thesis .
  qed
qed

lemma concManyNil_eq: "concManyNil (Some first) (map Some others) = concMany first others"
proof (induction first others rule: concMany.induct)
  case (1 first others)
  show ?case
  proof (cases "others = []")
    case True
    then show ?thesis by (simp add: concManyNil.simps[of "Some first" "[]"])
  next
    case False
    let ?k = "length others div 2"
    have ne: "length others \<noteq> 0" using False by simp
    have lt: "?k < length others" using False by simp
    have "concManyNil (Some first) (map Some others) =
       conc (concManyNil (Some first) (map Some (take ?k others)))
            (concManyNil (Some (others ! ?k)) (map Some (drop (?k + 1) others))) 0 0"
      using False lt by (subst concManyNil.simps) (simp add: take_map drop_map)
    then show ?thesis
      by (simp only: "1.IH"(1)[OF ne] "1.IH"(2)[OF ne] concMany_rec[OF False])
  qed
qed

lemma ceillog2_real: "0 < n \<Longrightarrow> ceillog2 n = nat \<lceil>log 2 (real n)\<rceil>"
  by (simp add: ceillog2_def)

section \<open>Cached lengths\<close>

lemma int64_id: "in64 x \<Longrightarrow> int64 x = x"
  by (simp add: int64_def in64_def)

lemma in64_int64 [simp]: "in64 (int64 x)"
  by (simp add: int64_def in64_def)

lemma in64_lengthN [simp]: "in64 (lengthN n)"
  by (induction n) simp_all

lemma int64_lengthN [simp]: "int64 (lengthN n) = lengthN n"
  by (simp add: int64_id)

lemma lengthN_emptyNode [simp]: "lengthN emptyNode = 0"
  by (simp add: emptyNode_def int64_def)

lemma valid_emptyNode [simp]: "valid emptyNode"
  by (simp add: emptyNode_def)

lemma fits_simps [simp]:
  "fits (leaf l) = (int (length l) < 9223372036854775808)"
  "fits (concatN lhs rhs sp rl d) =
     (int (length (content lhs)) + int (length (content rhs)) < 9223372036854775808)"
  "fits (ropeN n) = fits n"
  "fits (conc lhs rhs hl hr) =
     (int (length (content lhs)) + int (length (content rhs)) < 9223372036854775808)"
  by (simp_all add: fits_def)

lemma fits_emptyNode [simp]: "fits emptyNode"
  by (simp add: emptyNode_def)

lemma fits_shorter: "fits n \<Longrightarrow> length (content m) \<le> length (content n) \<Longrightarrow> fits m"
  by (simp add: fits_def)

lemma valid_length: "valid n \<Longrightarrow> fits n \<Longrightarrow> lengthN n = int (length (content n))"
proof (induction n)
  case (leaf l)
  then show ?case by (simp add: int64_id in64_def)
next
  case (concatN lhs rhs sp rl d)
  have fl: "fits lhs" and fr: "fits rhs"
    using concatN.prems(2) by (simp_all add: fits_def)
  have l: "lengthN lhs = int (length (content lhs))"
    using concatN.IH(1) concatN.prems(1) fl by simp
  have r: "lengthN rhs = int (length (content rhs))"
    using concatN.IH(2) concatN.prems(1) fr by simp
  have "rLength (concatN lhs rhs sp rl d) = lengthN rhs"
    using concatN.prems(1) by auto
  then have "lengthN (concatN lhs rhs sp rl d) = int64 (lengthN lhs + lengthN rhs)"
    using concatN.prems(1) by simp
  also have "\<dots> = lengthN lhs + lengthN rhs"
    using concatN.prems(2) l r by (intro int64_id) (simp add: in64_def)
  finally show ?case
    using l r by simp
next
  case (ropeN n)
  then show ?case by simp
qed

lemma valid_length_nonneg: "valid n \<Longrightarrow> fits n \<Longrightarrow> 0 \<le> lengthN n"
  by (simp add: valid_length)

lemma uint_max_rLenT [simp]: "uint (- 1 :: rLenT) = 4294967295"
  by (simp add: unsigned_minus_1_eq_mask mask_eq_exp_minus_1)

lemma rLen_roundtrip:
  "0 \<le> x \<Longrightarrow> x \<le> 4294967295 \<Longrightarrow> uint (word_of_int x :: rLenT) = x"
  by (simp add: uint_word_of_int)

lemma conc_length:
  assumes "hl \<le> 0 \<or> hl = lengthN lhs" and "hr \<le> 0 \<or> hr = lengthN rhs"
    and "0 \<le> lengthN rhs"
  shows "lengthN (conc lhs rhs hl hr) = int64 (lengthN lhs + lengthN rhs)"
proof (cases "lhs = emptyNode \<or> rhs = emptyNode")
  case True
  then show ?thesis by (auto simp: conc_def)
next
  case False
  have l: "(if hl \<le> 0 then lengthN lhs else hl) = lengthN lhs"
    using assms(1) by auto
  have r: "(if hr \<le> 0 then lengthN rhs else hr) = lengthN rhs"
    using assms(2) by auto
  show ?thesis
  proof (cases "lengthN rhs > 4294967295")
    case True
    then show ?thesis
      using False by (simp add: conc_def Let_def l r)
  next
    case small: False
    then have "uint (word_of_int (lengthN rhs) :: rLenT) = lengthN rhs"
      using assms(3) by (simp add: rLen_roundtrip)
    then show ?thesis
      using False small by (simp add: conc_def Let_def l r)
  qed
qed

lemma conc_cache:
  assumes "lhs \<noteq> emptyNode" and "rhs \<noteq> emptyNode"
    and "hl \<le> 0 \<or> hl = lengthN lhs" and "hr \<le> 0 \<or> hr = lengthN rhs"
    and "0 \<le> lengthN rhs"
  shows "split (conc lhs rhs hl hr) = lengthN lhs \<and>
         rLen (conc lhs rhs hl hr) =
           (if lengthN rhs > 4294967295 then 0 else word_of_int (lengthN rhs)) \<and>
         rLength (conc lhs rhs hl hr) = lengthN rhs"
proof -
  have l: "(if hl \<le> 0 then lengthN lhs else hl) = lengthN lhs"
    using assms(3) by auto
  have r: "(if hr \<le> 0 then lengthN rhs else hr) = lengthN rhs"
    using assms(4) by auto
  show ?thesis
  proof (cases "lengthN rhs > 4294967295")
    case True
    then show ?thesis
      using assms(1,2) by (simp add: conc_def Let_def l r)
  next
    case small: False
    then have "uint (word_of_int (lengthN rhs) :: rLenT) = lengthN rhs"
      using assms(5) by (simp add: rLen_roundtrip)
    then show ?thesis
      using assms(1,2) small by (simp add: conc_def Let_def l r)
  qed
qed

lemma conc_valid:
  assumes "valid lhs" and "valid rhs"
    and "hl \<le> 0 \<or> hl = lengthN lhs" and "hr \<le> 0 \<or> hr = lengthN rhs"
    and nn: "0 \<le> lengthN rhs"
  shows "valid (conc lhs rhs hl hr)"
proof (cases "lhs = emptyNode \<or> rhs = emptyNode")
  case True
  then show ?thesis using assms(1,2) by (auto simp: conc_def)
next
  case False
  have c: "split (conc lhs rhs hl hr) = lengthN lhs \<and>
         rLen (conc lhs rhs hl hr) =
           (if lengthN rhs > 4294967295 then 0 else word_of_int (lengthN rhs))"
    using conc_cache[OF _ _ assms(3,4) nn] False by blast
  have shape: "conc lhs rhs hl hr =
      concatN lhs rhs (split (conc lhs rhs hl hr)) (rLen (conc lhs rhs hl hr))
        (treedepth (conc lhs rhs hl hr))"
    using False by (simp add: conc_def Let_def)
  have "rLen (conc lhs rhs hl hr) = 0 \<or> uint (rLen (conc lhs rhs hl hr)) = lengthN rhs"
    using c nn by (cases "lengthN rhs > 4294967295") (simp_all add: rLen_roundtrip)
  then show ?thesis
    using c assms(1,2) by (subst shape) simp
qed

lemma concMany_valid:
  "\<forall>x \<in> set (first # others). valid x \<Longrightarrow> fits (concMany first others) \<Longrightarrow>
   valid (concMany first others)"
proof (induction first others rule: concMany.induct)
  case (1 first others)
  show ?case
  proof (cases "others = []")
    case True
    then show ?thesis using "1.prems" by simp
  next
    case False
    let ?k = "length others div 2"
    let ?a = "take ?k others" and ?x = "others ! ?k" and ?b = "drop (?k + 1) others"
    have ne: "length others \<noteq> 0" using False by simp
    have lt: "?k < length others" using False by simp
    have pa: "\<forall>x \<in> set (first # ?a). valid x"
      using "1.prems"(1) by (auto dest: in_set_takeD)
    have pb: "\<forall>x \<in> set (?x # ?b). valid x"
      using "1.prems"(1) lt by (auto dest: in_set_dropD)
    have tot: "fits (conc (concMany first ?a) (concMany ?x ?b) 0 0)"
      using "1.prems"(2) by (simp only: concMany_rec[OF False])
    have fa: "fits (concMany first ?a)" and fb: "fits (concMany ?x ?b)"
      using tot by (simp_all add: fits_def)
    have va: "valid (concMany first ?a)"
      by (rule "1.IH"(1)[OF ne pa fa])
    have vb: "valid (concMany ?x ?b)"
      by (rule "1.IH"(2)[OF ne pb fb])
    have "valid (conc (concMany first ?a) (concMany ?x ?b) 0 0)"
      using valid_length_nonneg[OF vb fb] by (intro conc_valid[OF va vb]) simp_all
    then show ?thesis
      by (simp only: concMany_rec[OF False])
  qed
qed

lemma dropPrefix_valid_content:
  "valid n \<Longrightarrow> fits n \<Longrightarrow> in64 k \<Longrightarrow>
   valid (dropPrefix n k) \<and> content (dropPrefix n k) = drop (nat k) (content n)"
proof (induction n arbitrary: k)
  case (leaf l)
  then show ?case by (auto simp: emptyNode_def int64_id in64_def)
next
  case (concatN lhs rhs sp rl d)
  have vl: "valid lhs" and vr: "valid rhs" and rl: "rl = 0 \<or> uint rl = lengthN rhs"
    and spl: "sp = lengthN lhs"
    using concatN.prems(1) by auto
  have fl: "fits lhs" and fr: "fits rhs"
    using concatN.prems(2) by (simp_all add: fits_def)
  have sp: "sp = int (length (content lhs))"
    using spl vl fl by (simp add: valid_length)
  have spb: "sp < 9223372036854775808"
    using sp fl by (simp add: fits_def)
  show ?case
  proof (cases "k \<le> 0")
    case True
    then show ?thesis using concatN.prems(1) by simp
  next
    case pos: False
    show ?thesis
    proof (cases "k < sp")
      case True
      note ih = concatN.IH(1)[OF vl fl concatN.prems(3)]
      have w: "int64 (sp - k) = sp - k"
        using pos True spb by (intro int64_id) (simp add: in64_def)
      have "fits (dropPrefix lhs k)"
        using ih fl by (simp add: fits_def)
      then have len: "lengthN (dropPrefix lhs k) = sp - k"
        using ih pos True sp by (simp add: valid_length)
      have h: "uint rl \<le> 0 \<or> uint rl = lengthN rhs"
        using rl by auto
      have v: "valid (conc (dropPrefix lhs k) rhs (sp - k) (uint rl))"
        by (rule conc_valid) (use ih vr len h valid_length_nonneg[OF vr fr] in auto)
      have c: "content (conc (dropPrefix lhs k) rhs (sp - k) (uint rl)) =
          drop (nat k) (content lhs @ content rhs)"
        using ih True sp by simp
      show ?thesis
        using pos True v c w by simp
    next
      case False
      have w: "int64 (k - sp) = k - sp"
        using False concatN.prems(3) sp by (intro int64_id) (simp add: in64_def)
      have "in64 (k - sp)"
        using False concatN.prems(3) sp by (simp add: in64_def)
      note ih = concatN.IH(2)[OF vr fr this]
      have "drop (nat (k - sp)) (content rhs) = drop (nat k) (content lhs @ content rhs)"
        using False sp by (simp add: nat_diff_distrib)
      then show ?thesis
        using pos False ih w by simp
    qed
  qed
next
  case (ropeN n)
  then show ?case by simp
qed

lemma dropPostfix_valid_content:
  "valid n \<Longrightarrow> fits n \<Longrightarrow> in64 k \<Longrightarrow>
   valid (dropPostfix n k) \<and> content (dropPostfix n k) = take (nat k) (content n)"
proof (induction n arbitrary: k)
  case (leaf l)
  then show ?case by (auto simp: emptyNode_def int64_id in64_def)
next
  case (concatN lhs rhs sp rl d)
  have vl: "valid lhs" and vr: "valid rhs" and spl: "sp = lengthN lhs"
    using concatN.prems(1) by auto
  have fl: "fits lhs" and fr: "fits rhs"
    using concatN.prems(2) by (simp_all add: fits_def)
  have sp: "sp = int (length (content lhs))"
    using spl vl fl by (simp add: valid_length)
  have "rLength (concatN lhs rhs sp rl d) = lengthN rhs"
    using concatN.prems(1) by auto
  then have rl: "rLength (concatN lhs rhs sp rl d) = int (length (content rhs))"
    using vr fr by (simp add: valid_length)
  have tot: "int64 (sp + rLength (concatN lhs rhs sp rl d)) =
      int (length (content lhs)) + int (length (content rhs))"
    using sp rl concatN.prems(2) by (simp add: int64_id in64_def)
  show ?case
  proof (cases "k \<le> 0")
    case True
    then show ?thesis by simp
  next
    case pos: False
    show ?thesis
    proof (cases "k \<le> sp")
      case True
      note ih = concatN.IH(1)[OF vl fl concatN.prems(3)]
      show ?thesis
        using pos True ih sp by simp
    next
      case gt: False
      show ?thesis
      proof (cases "k \<ge> int64 (sp + rLength (concatN lhs rhs sp rl d))")
        case True
        then have "take (nat k) (content lhs @ content rhs) = content lhs @ content rhs"
          using tot by simp
        then show ?thesis
          using pos gt True concatN.prems(1) by simp
      next
        case False
        have w: "int64 (k - sp) = k - sp"
          using gt concatN.prems(3) sp by (intro int64_id) (simp add: in64_def)
        have "in64 (k - sp)"
          using gt concatN.prems(3) sp by (simp add: in64_def)
        note ih = concatN.IH(2)[OF vr fr this]
        have fd: "fits (dropPostfix rhs (k - sp))"
          using ih fr by (simp add: fits_def)
        have len: "lengthN (dropPostfix rhs (k - sp)) = k - sp"
          using ih fd gt False tot sp by (simp add: valid_length)
        have v: "valid (conc lhs (dropPostfix rhs (k - sp)) sp (k - sp))"
          by (rule conc_valid) (use ih vl len spl gt in auto)
        have c: "content (conc lhs (dropPostfix rhs (k - sp)) sp (k - sp)) =
            take (nat k) (content lhs @ content rhs)"
          using ih gt sp by (simp add: nat_diff_distrib)
        show ?thesis
          using pos gt False v c w by simp
      qed
    qed
  qed
next
  case (ropeN n)
  then show ?case by simp
qed

lemma slice_valid:
  assumes ls: "\<And>l s e. valid (leafSlice l s e) \<and> length (content (leafSlice l s e)) \<le> length l"
  shows "valid n \<Longrightarrow> fits n \<Longrightarrow>
         valid (sliceN leafSlice n start end') \<and>
         length (content (sliceN leafSlice n start end')) \<le> length (content n)"
proof (induction n arbitrary: start end')
  case (leaf l)
  show ?case using ls[of l start end'] by simp
next
  case (concatN lhs rhs sp rl d)
  have vl: "valid lhs" and vr: "valid rhs" and spl: "sp = lengthN lhs"
    and rl: "rl = 0 \<or> uint rl = lengthN rhs"
    using concatN.prems(1) by auto
  have fl: "fits lhs" and fr: "fits rhs"
    using concatN.prems(2) by (simp_all add: fits_def)
  note il = concatN.IH(1)[OF vl fl]
  note ir = concatN.IH(2)[OF vr fr]
  let ?l = "if start > 0 \<or> end' < sp then sliceN leafSlice lhs start end' else lhs"
  let ?r = "if start > sp \<or> end' < int64 (sp + lengthN rhs)
              then sliceN leafSlice rhs (int64 (start - sp)) (int64 (end' - sp)) else rhs"
  let ?hl = "if start > 0 \<or> end' < sp then - 1 else sp"
  let ?hr = "if start > sp \<or> end' < int64 (sp + lengthN rhs) then - 1 else uint rl"
  have vL: "valid ?l" and cL: "length (content ?l) \<le> length (content lhs)"
    using il vl by simp_all
  have vR: "valid ?r" and cR: "length (content ?r) \<le> length (content rhs)"
    using ir vr by simp_all
  have fR: "fits ?r"
    by (rule fits_shorter[OF fr cR])
  have v: "valid (conc ?l ?r ?hl ?hr)"
  proof (rule conc_valid[OF vL vR])
    show "?hl \<le> 0 \<or> ?hl = lengthN ?l" using spl by simp
    show "?hr \<le> 0 \<or> ?hr = lengthN ?r" using rl by auto
    show "0 \<le> lengthN ?r" by (rule valid_length_nonneg[OF vR fR])
  qed
  have c: "length (content (conc ?l ?r ?hl ?hr)) \<le> length (content lhs) + length (content rhs)"
    using cL cR by (simp only: content_conc length_append add_mono)
  show ?case
  proof (cases "end' \<le> sp")
    case True
    then show ?thesis using il[of start end'] by simp
  next
    case c1: False
    show ?thesis
    proof (cases "start \<ge> sp")
      case True
      then show ?thesis
        using c1 ir[of "int64 (start - sp)" "int64 (end' - sp)"] by simp
    next
      case c2: False
      show ?thesis
      proof (cases "start \<le> 0 \<and> end' \<ge> int64 (sp + lengthN rhs)")
        case True
        then show ?thesis using c1 c2 concatN.prems(1) by simp
      next
        case c3: False
        have "sliceN leafSlice (concatN lhs rhs sp rl d) start end' = conc ?l ?r ?hl ?hr"
          using c1 c2 c3 by (simp only: sliceN.simps if_False)
        with v c show ?thesis by (simp only: content_concatN length_append)
      qed
    qed
  qed
next
  case (ropeN n)
  then show ?case by simp
qed

section \<open>The scratch array of Rebalance\<close>

lemma index_Inr: "index xs i = Inr x \<Longrightarrow> 0 \<le> i \<and> i < int (length xs) \<and> x = xs ! nat i"
  by (auto simp: index_def split: if_splits)

lemma index_in_set: "index xs i = Inr x \<Longrightarrow> x \<in> set xs"
  by (auto simp: index_def split: if_splits)

lemma scratchOK_entry: "scratchOK scratch \<Longrightarrow> b \<in> set scratch \<Longrightarrow> entryOK b"
  by (simp add: scratchOK_def list_all_iff)

lemma scratchOK_update: "scratchOK scratch \<Longrightarrow> entryOK b \<Longrightarrow> scratchOK (scratch[i := b])"
  unfolding scratchOK_def list_all_iff
  using set_update_subset_insert[of scratch i b] by auto

lemma scratchOK_replicate: "scratchOK (replicate k (B None 0))"
  by (simp add: scratchOK_def list_all_iff entryOK_def)

lemma entryLen_nonneg: "0 \<le> entryLen b"
  by (simp add: entryLen_def split: option.splits)

lemma scratchLen_nonneg: "0 \<le> scratchLen scratch"
  unfolding scratchLen_def by (rule sum_list_nonneg) (auto simp: entryLen_nonneg)

lemma scratchLen_replicate [simp]: "scratchLen (replicate k (B None 0)) = 0"
  by (induction k) (simp_all add: scratchLen_def entryLen_def)

lemma scratchLen_update:
  "i < length scratch \<Longrightarrow>
   scratchLen (scratch[i := b]) = scratchLen scratch - entryLen (scratch ! i) + entryLen b"
proof (induction scratch arbitrary: i)
  case Nil
  then show ?case by simp
next
  case (Cons x xs)
  then show ?case
    by (cases i) (simp_all add: scratchLen_def)
qed

lemma rebalanceMerge_valid:
  "scratchOK scratch \<Longrightarrow> valid n \<Longrightarrow> fits n \<Longrightarrow> nLen = lengthN n \<Longrightarrow>
   int (length (content n)) + scratchLen scratch < 9223372036854775808 \<Longrightarrow>
   rebalanceMerge i bucket n nLen scratch = Inr (n', nLen', scratch') \<Longrightarrow>
   valid n' \<and> fits n' \<and> nLen' = lengthN n' \<and> scratchOK scratch' \<and>
   int (length (content n')) + scratchLen scratch' = int (length (content n)) + scratchLen scratch \<and>
   length scratch' = length scratch"
proof (induction i bucket n nLen scratch rule: rebalanceMerge.induct)
  case (1 i bucket n nLen scratch)
  show ?case
  proof (cases "i \<ge> 0")
    case False
    then show ?thesis
      using "1.prems" by (auto simp: rebalanceMerge.simps[of i])
  next
    case True
    show ?thesis
    proof (cases "index scratch bucket")
      case (Inl e)
      then show ?thesis
        using "1.prems"(6) True by (simp add: rebalanceMerge.simps[of i])
    next
      case (Inr b)
      have ok: "entryOK b"
        using "1.prems"(1) index_in_set[OF Inr] by (rule scratchOK_entry)
      have ix: "nat bucket < length scratch" and bx: "b = scratch ! nat bucket"
        using index_Inr[OF Inr] by (simp_all add: nat_less_iff)
      show ?thesis
      proof (cases "B_n b")
        case None
        have "rebalanceMerge (i - 1) bucket n nLen scratch = Inr (n', nLen', scratch')"
          using "1.prems"(6) True Inr None by (simp add: rebalanceMerge.simps[of i])
        then show ?thesis
          using "1.IH"(1)[OF True Inr None "1.prems"(1,2,3,4,5)] by simp
      next
        case (Some bn)
        have vb: "valid bn" and fb: "fits bn" and lb: "B_len b = lengthN bn"
          using ok Some by (simp_all add: entryOK_def)
        have eb: "entryLen b = int (length (content bn))"
          using Some by (simp add: entryLen_def)
        let ?n = "conc n bn nLen (B_len b)"
        let ?s = "scratch[nat bucket := B None (B_len b)]"
        have sl: "scratchLen ?s = scratchLen scratch - int (length (content bn))"
          using scratchLen_update[OF ix, of "B None (B_len b)"] bx eb
          by (simp add: entryLen_def)
        have nb: "0 \<le> lengthN bn"
          by (rule valid_length_nonneg[OF vb fb])
        have v: "valid ?n"
          by (rule conc_valid) (use "1.prems"(2,4) vb lb nb in auto)
        have f: "fits ?n"
          using sl scratchLen_nonneg[of ?s] "1.prems"(5) by simp
        have l: "int64 (nLen + B_len b) = lengthN ?n"
          using conc_length[of nLen n "B_len b" bn] "1.prems"(4) lb nb by simp
        have s: "scratchOK ?s"
          by (rule scratchOK_update[OF "1.prems"(1)]) (simp add: entryOK_def)
        have p: "int (length (content ?n)) + scratchLen ?s =
                 int (length (content n)) + scratchLen scratch"
          using sl by simp
        have "rebalanceMerge (i - 1) bucket ?n (int64 (nLen + B_len b)) ?s =
                Inr (n', nLen', scratch')"
          using "1.prems"(6) True Inr Some by (simp add: rebalanceMerge.simps[of i])
        then show ?thesis
          using "1.IH"(2)[OF True Inr Some s v f l] p "1.prems"(5) by simp
      qed
    qed
  qed
qed

lemma rebalanceLeaf_valid:
  assumes "scratchOK scratch"
    and "int (length l) + scratchLen scratch < 9223372036854775808"
    and "rebalanceLeaf fibs l scratch = Inr scratch'"
  shows "scratchOK scratch' \<and> scratchLen scratch' \<le> scratchLen scratch + int (length l)"
proof -
  from assms(3) obtain bucket where b: "binSearch (lengthN (leaf l)) fibs = Inr bucket"
    by (auto simp: rebalanceLeaf_def split: sum.splits)
  from assms(3) b obtain n nLen s where
    m: "rebalanceMerge bucket bucket (leaf l) (lengthN (leaf l)) scratch = Inr (n, nLen, s)"
    by (auto simp: rebalanceLeaf_def split: sum.splits)
  have fl: "fits (leaf l)"
    using assms(2) scratchLen_nonneg[of scratch] by simp
  have pl: "int (length (content (leaf l))) + scratchLen scratch < 9223372036854775808"
    using assms(2) by simp
  have ok: "valid n \<and> fits n \<and> nLen = lengthN n \<and> scratchOK s \<and>
      int (length (content n)) + scratchLen s = int (length l) + scratchLen scratch"
    using rebalanceMerge_valid[OF assms(1) _ fl _ pl m] by simp
  have upd: "scratch' = s[nat bucket := B (Some n) nLen] \<and> nat bucket < length s"
    using assms(3) b m by (auto simp: rebalanceLeaf_def split: sum.splits if_splits)
  have e: "entryOK (B (Some n) nLen)"
    using ok by (simp add: entryOK_def)
  have "scratchLen scratch' =
      scratchLen s - entryLen (s ! nat bucket) + int (length (content n))"
    using upd scratchLen_update[of "nat bucket" s "B (Some n) nLen"] by (simp add: entryLen_def)
  then have "scratchLen scratch' \<le> scratchLen scratch + int (length l)"
    using ok entryLen_nonneg[of "s ! nat bucket"] by simp
  then show ?thesis
    using ok e upd scratchOK_update by simp
qed

lemma walkLeaves_rebalanceLeaf:
  "scratchOK s \<Longrightarrow> scratchLen s + int (length (content n)) < 9223372036854775808 \<Longrightarrow>
   walkLeaves n (rebalanceLeaf fibs) s = Inr s' \<Longrightarrow>
   scratchOK s' \<and> scratchLen s' \<le> scratchLen s + int (length (content n))"
proof (induction n arbitrary: s s')
  case (leaf l)
  then show ?case
    using rebalanceLeaf_valid[of s l fibs s'] by simp
next
  case (concatN lhs rhs sp rl d)
  from concatN.prems(3) obtain m where m: "walkLeaves lhs (rebalanceLeaf fibs) s = Inr m"
    and r: "walkLeaves rhs (rebalanceLeaf fibs) m = Inr s'"
    by (auto split: sum.splits)
  have "scratchLen s + int (length (content lhs)) < 9223372036854775808"
    using concatN.prems(2) by simp
  note a = concatN.IH(1)[OF concatN.prems(1) this m]
  have "scratchLen m + int (length (content rhs)) < 9223372036854775808"
    using a concatN.prems(2) by simp
  note b = concatN.IH(2)[OF conjunct1[OF a] this r]
  show ?case
    using a b by simp
next
  case (ropeN n)
  then show ?case by simp
qed

lemma rebalanceFold_valid:
  "scratchOK scratch \<Longrightarrow> entryOK nw \<Longrightarrow>
   entryLen nw + scratchLen scratch < 9223372036854775808 \<Longrightarrow>
   entryOK (rebalanceFold scratch nw)"
proof (induction scratch arbitrary: nw)
  case Nil
  then show ?case by simp
next
  case (Cons b bs)
  have okb: "entryOK b" and okbs: "scratchOK bs"
    using Cons.prems(1) by (simp_all add: scratchOK_def)
  have tot: "entryLen nw + entryLen b + scratchLen bs < 9223372036854775808"
    using Cons.prems(3) by (simp add: scratchLen_def)
  let ?nw = "case B_n b of None \<Rightarrow> nw
      | Some bn \<Rightarrow> (case B_n nw of None \<Rightarrow> b
          | Some nwn \<Rightarrow>
              B (Some (conc bn nwn (B_len b) (B_len nw))) (int64 (B_len nw + B_len b)))"
  have "entryOK ?nw \<and> entryLen ?nw = entryLen nw + entryLen b"
  proof (cases "B_n b")
    case None
    then show ?thesis using Cons.prems(2) by (simp add: entryLen_def)
  next
    case (Some bn)
    note sb = Some
    show ?thesis
    proof (cases "B_n nw")
      case None
      then show ?thesis using sb okb by (simp add: entryLen_def)
    next
      case (Some nwn)
      have vb: "valid bn" "fits bn" "B_len b = lengthN bn"
        using okb sb by (simp_all add: entryOK_def)
      have vn: "valid nwn" "fits nwn" "B_len nw = lengthN nwn"
        using Cons.prems(2) Some by (simp_all add: entryOK_def)
      have nn: "0 \<le> lengthN nwn"
        by (rule valid_length_nonneg[OF vn(1,2)])
      have v: "valid (conc bn nwn (B_len b) (B_len nw))"
        by (rule conc_valid) (use vb vn nn in auto)
      have f: "fits (conc bn nwn (B_len b) (B_len nw))"
        using tot sb Some scratchLen_nonneg[of bs] by (simp add: entryLen_def)
      have l: "int64 (B_len nw + B_len b) = lengthN (conc bn nwn (B_len b) (B_len nw))"
        using conc_length[of "B_len b" bn "B_len nw" nwn] vb vn nn by (simp add: add.commute)
      show ?thesis
        using sb Some v f l by (simp add: entryOK_def entryLen_def)
    qed
  qed
  then show ?case
    using Cons.IH[OF okbs, of ?nw] tot by simp
qed

section \<open>Self-concatenation\<close>

lemma concMany_single: "concMany first [x] = conc first x 0 0"
  by (simp add: concMany_rec)

lemma selfConcat_length:
  "k \<le> 62 \<Longrightarrow>
   \<exists>n. selfConcat k = Rope (Some n) \<and> n \<noteq> emptyNode \<and> valid n \<and> lengthN n = 2 ^ k"
proof (induction k)
  case 0
  show ?case by (simp add: New_def emptyNode_def int64_def)
next
  case (Suc k)
  then obtain n where n: "selfConcat k = Rope (Some n)" "n \<noteq> emptyNode" "valid n"
      "lengthN n = 2 ^ k"
    by auto
  have e: "selfConcat (Suc k) = Rope (Some (conc (ropeN n) n 0 0))"
    by (simp add: n concMany_single)
  have ne: "conc (ropeN n) n 0 0 \<noteq> emptyNode"
    using n(2) by (simp add: conc_def emptyNode_def Let_def)
  have v: "valid (conc (ropeN n) n 0 0)"
    by (rule conc_valid) (simp_all add: n)
  define p where "p = (2::int) ^ k"
  have "(2::int) ^ Suc k \<le> 2 ^ 62"
    using Suc.prems by (intro power_increasing) simp_all
  then have "2 * p \<le> 4611686018427387904"
    by (simp add: p_def)
  moreover have "0 \<le> p"
    by (simp add: p_def)
  ultimately have "in64 (p + p)"
    by (simp add: in64_def)
  then have b: "in64 (2 ^ k + 2 ^ k)"
    by (simp add: p_def)
  have "lengthN (conc (ropeN n) n 0 0) = int64 (lengthN (ropeN n) + lengthN n)"
    by (rule conc_length) (simp_all add: n)
  then have "lengthN (conc (ropeN n) n 0 0) = 2 ^ Suc k"
    using n(4) int64_id[OF b] by simp
  then show ?case
    using e ne v by blast
qed

lemma rLenT_of_wrapped: "(- 9223372036854775803 :: rLenT) = 5"
proof -
  have "(word_of_int (- 9223372036854775803) :: rLenT) = 5"
  proof (rule word_uint_eqI)
    have "uint (word_of_int (- 9223372036854775803) :: rLenT) =
        (- 9223372036854775803) mod 2 ^ LENGTH(32)"
      by (rule uint_word_of_int)
    then show "uint (word_of_int (- 9223372036854775803) :: rLenT) = uint (5 :: rLenT)"
      by simp
  qed
  then show ?thesis
    by simp
qed

lemma selfConcat_63:
  "\<exists>n. selfConcat 63 = Rope (Some n) \<and> n \<noteq> emptyNode \<and> valid n \<and>
       lengthN n = - 9223372036854775808"
proof -
  from selfConcat_length[of 62] obtain m where
    m: "selfConcat 62 = Rope (Some m)" "m \<noteq> emptyNode" "valid m" "lengthN m = 2 ^ 62"
    by auto
  have "selfConcat 63 = selfConcat (Suc 62)"
    by simp
  then have e: "selfConcat 63 = Rope (Some (conc (ropeN m) m 0 0))"
    by (simp only: selfConcat.simps) (simp add: m concMany_single)
  have ne: "conc (ropeN m) m 0 0 \<noteq> emptyNode"
    using m(2) by (simp add: conc_def emptyNode_def Let_def)
  have v: "valid (conc (ropeN m) m 0 0)"
    by (rule conc_valid) (simp_all add: m)
  have "lengthN (conc (ropeN m) m 0 0) = int64 (lengthN (ropeN m) + lengthN m)"
    by (rule conc_length) (simp_all add: m)
  then have "lengthN (conc (ropeN m) m 0 0) = - 9223372036854775808"
    by (simp add: m int64_def)
  then show ?thesis
    using e ne v by blast
qed

lemma selfConcat_63_abcde:
  "\<exists>lhs d. the (node (Concat (selfConcat 63) [New ''abcde''])) =
      concatN lhs (leaf ''abcde'') (- 9223372036854775808) 5 d \<and>
      valid lhs \<and> lengthN lhs = - 9223372036854775808"
proof -
  from selfConcat_63 obtain n where
    n: "selfConcat 63 = Rope (Some n)" "n \<noteq> emptyNode" "valid n"
       "lengthN n = - 9223372036854775808"
    by auto
  have "Concat (selfConcat 63) [New ''abcde''] =
      Rope (Some (conc (ropeN n) (leaf ''abcde'') 0 0))"
    by (simp add: n New_def concMany_single)
  moreover have "conc (ropeN n) (leaf ''abcde'') 0 0 =
      concatN (ropeN n) (leaf ''abcde'') (- 9223372036854775808) 5
        ((if depth (ropeN n) < 0 then 0 else depth (ropeN n)) + 1)"
    by (simp add: conc_def emptyNode_def Let_def n int64_def)
  ultimately show ?thesis
    using n(3,4) by simp
qed

section \<open>Claims on concatenation\<close>

lemma log2_1024: "nat \<lceil>log 2 (real (1 + length (replicate 1023 x)))\<rceil> = 10"
proof -
  have "ceillog2 (2 ^ 10) = 10"
    by (rule ceillog2_2_power)
  then show ?thesis
    by (simp add: ceillog2_def)
qed

lemma nonNil_New:
  "\<forall>x \<in> set bs. \<exists>c. x = New [c] \<Longrightarrow>
   length (nonNil bs) = length bs \<and> (\<forall>y \<in> set (nonNil bs). depth y = 0)"
proof (induction bs)
  case Nil
  show ?case by simp
next
  case (Cons b bs)
  from Cons.prems obtain c where "b = New [c]"
    by auto
  then have "node b = Some (leaf [c])"
    by (simp add: New_def)
  then show ?case
    using Cons by simp
qed

lemma Concat_depth_le:
  assumes "\<forall>x \<in> set (a # bs). \<exists>c. x = New [c]"
  shows "\<exists>n. node (Concat a bs) = Some n \<and> unat (depth n) \<le> ceillog2 (1 + length bs)"
proof -
  from assms obtain c where a: "a = Rope (Some (leaf [c]))"
    by (auto simp: New_def)
  show ?thesis
  proof (cases bs)
    case Nil
    then show ?thesis using a by simp
  next
    case (Cons b bs')
    have nn: "length (nonNil bs) = length bs \<and> (\<forall>y \<in> set (nonNil bs). depth y = 0)"
      using assms by (intro nonNil_New) simp
    then have "\<forall>x \<in> set (ropeN (leaf [c]) # nonNil bs). depth x = 0"
      by simp
    then have "unat (depth (concMany (ropeN (leaf [c])) (nonNil bs)))
        \<le> ceillog2 (1 + length (nonNil bs))"
      by (rule concMany_depth_le)
    then show ?thesis
      using a Cons nn by simp
  qed
qed

text \<open>
  C8.  \<open>concMany\<close> combines its operands by divide and conquer: a non-empty list of
  others is cut at its middle, both parts are combined recursively and the two results
  are joined by \<open>conc\<close>.  For \<open>N\<close> leaves of one element each the depth of the result
  is at most \<open>\<lceil>log\<^sub>2 N\<rceil>\<close>, for the \<open>concMany\<close> that \<open>Rope.Concat\<close> calls and for the
  later one that accepts nil nodes, and so is the depth of \<open>a.Concat(bs...)\<close> for \<open>N\<close>
  ropes of one element each; 1024 of them give a depth of at most 10.
\<close>

theorem concMany_balanced:
  "(others \<noteq> [] \<longrightarrow>
      concMany first others =
        conc (concMany first (take (length others div 2) others))
             (concMany (others ! (length others div 2)) (drop (length others div 2 + 1) others))
             0 0) \<and>
   ((\<forall>x \<in> set (first # others). \<exists>c. x = leaf [c]) \<longrightarrow>
      unat (depth (concMany first others)) \<le> nat \<lceil>log 2 (real (1 + length others))\<rceil> \<and>
      unat (depth (concManyNil (Some first) (map Some others)))
        \<le> nat \<lceil>log 2 (real (1 + length others))\<rceil>) \<and>
   ((\<forall>x \<in> set (a # bs). \<exists>c. x = New [c]) \<longrightarrow>
      (\<exists>n. node (Concat a bs) = Some n \<and>
           unat (depth n) \<le> nat \<lceil>log 2 (real (1 + length bs))\<rceil>))"
proof -
  have a: "others \<noteq> [] \<longrightarrow>
      concMany first others =
        conc (concMany first (take (length others div 2) others))
             (concMany (others ! (length others div 2)) (drop (length others div 2 + 1) others))
             0 0"
    using concMany_rec by blast
  have b: "unat (depth (concMany first others)) \<le> nat \<lceil>log 2 (real (1 + length others))\<rceil>"
    if h: "\<forall>x \<in> set (first # others). \<exists>c. x = leaf [c]"
  proof -
    have "\<forall>x \<in> set (first # others). depth x = 0"
      using h by fastforce
    then have "unat (depth (concMany first others)) \<le> ceillog2 (1 + length others)"
      by (rule concMany_depth_le)
    then show ?thesis
      by (simp add: ceillog2_def)
  qed
  have c: "\<exists>n. node (Concat a bs) = Some n \<and>
           unat (depth n) \<le> nat \<lceil>log 2 (real (1 + length bs))\<rceil>"
    if h: "\<forall>x \<in> set (a # bs). \<exists>c. x = New [c]"
    using Concat_depth_le[OF h] by (simp add: ceillog2_def)
  show ?thesis
    using a b c by (simp add: concManyNil_eq)
qed

theorem concMany_balanced_witness:
  "unat (depth (concMany (leaf ''a'') (replicate 1023 (leaf ''a'')))) \<le> 10 \<and>
   (\<exists>n. node (Concat (New ''a'') (replicate 1023 (New ''a''))) = Some n \<and> unat (depth n) \<le> 10) \<and>
   concMany (leaf ''a'') [leaf ''b'', leaf ''c''] =
     concatN (concatN (leaf ''a'') (leaf ''b'') 1 1 1) (leaf ''c'') 2 1 2"
proof -
  have h: "\<forall>x \<in> set (leaf ''a'' # replicate 1023 (leaf ''a'')). \<exists>c. x = leaf [c]"
    by simp
  from concMany_balanced[of "replicate 1023 (leaf ''a'')" "leaf ''a''"] h
  have d: "unat (depth (concMany (leaf ''a'') (replicate 1023 (leaf ''a''))))
      \<le> nat \<lceil>log 2 (real (1 + length (replicate 1023 (leaf ''a''))))\<rceil>"
    by blast
  have "\<exists>c. New ''a'' = New [c]"
    by (rule exI[of _ "CHR ''a''"]) simp
  then have hr: "\<forall>x \<in> set (New ''a'' # replicate 1023 (New ''a'')). \<exists>c. x = New [c]"
    by simp
  from concMany_balanced[of _ _ "New ''a''" "replicate 1023 (New ''a'')"] hr
  have r: "\<exists>n. node (Concat (New ''a'') (replicate 1023 (New ''a''))) = Some n \<and>
      unat (depth n) \<le> nat \<lceil>log 2 (real (1 + length (replicate 1023 (New ''a''))))\<rceil>"
    by blast
  have ne: "[leaf ''b'', leaf ''c''] \<noteq> []"
    by simp
  from concMany_balanced[of "[leaf ''b'', leaf ''c'']" "leaf ''a''"] ne
  have "concMany (leaf ''a'') [leaf ''b'', leaf ''c''] =
      conc (concMany (leaf ''a'') (take (length [leaf ''b'', leaf ''c''] div 2) [leaf ''b'', leaf ''c'']))
           (concMany ([leaf ''b'', leaf ''c''] ! (length [leaf ''b'', leaf ''c''] div 2))
              (drop (length [leaf ''b'', leaf ''c''] div 2 + 1) [leaf ''b'', leaf ''c''])) 0 0"
    by blast
  then have e: "concMany (leaf ''a'') [leaf ''b'', leaf ''c''] =
     concatN (concatN (leaf ''a'') (leaf ''b'') 1 1 1) (leaf ''c'') 2 1 2"
    by (simp add: concMany.simps[of _ "[leaf ''b'']"] conc_def emptyNode_def int64_def)
  show ?thesis
    using d r e by (simp only: log2_1024)
qed





section \<open>The binary search\<close>

lemma tdiv_between:
  "1 < e - s \<Longrightarrow> s < tdiv (s + e) 2 \<and> tdiv (s + e) 2 < e"
  by (cases "0 \<le> s + e") (auto simp: tdiv_def sgn_if abs_if)

lemma increasing_nth:
  "sorted_wrt (<) arr \<Longrightarrow> 0 \<le> i \<Longrightarrow> i < j \<Longrightarrow> j < int (length arr) \<Longrightarrow>
   arr ! nat i < (arr ! nat j :: int)"
  by (simp add: sorted_wrt_nth_less nat_less_iff)

lemma binSearch_loop_correct:
  assumes "sorted_wrt (<) arr"
    and "- 1 \<le> start" and "start < end'" and "end' \<le> int (length arr)"
    and "0 \<le> start \<longrightarrow> arr ! nat start < N"
    and "end' < int (length arr) \<longrightarrow> N < arr ! nat end'"
  shows "\<exists>r. binSearch_loop N arr start end' = Inr r \<and> start < r \<and> r \<le> end' \<and>
           (\<forall>i. 0 \<le> i \<and> i < r \<longrightarrow> arr ! nat i < N) \<and>
           (r < int (length arr) \<longrightarrow> N \<le> arr ! nat r)"
  using assms
proof (induction N arr start end' rule: binSearch_loop.induct)
  case (1 N arr start end')
  note inc = "1.prems"(1)
  show ?case
  proof (cases "end' - start > 1")
    case False
    then have e: "end' = start + 1"
      using "1.prems"(3) by simp
    have below: "arr ! nat i < N" if "0 \<le> i" "i < end'" for i
    proof (cases "i = start")
      case True
      then show ?thesis using "1.prems"(5) that by simp
    next
      case False
      then have "i < start" using that e by simp
      then have "arr ! nat i < arr ! nat start"
        using increasing_nth[OF inc that(1), of start] "1.prems"(3,4) by simp
      moreover have "arr ! nat start < N"
        using "1.prems"(5) that \<open>i < start\<close> by simp
      ultimately show ?thesis by simp
    qed
    have "binSearch_loop N arr start end' = Inr end'"
      using False by (simp add: binSearch_loop.simps[of N arr start end'])
    then show ?thesis
      using below "1.prems"(3,6) by auto
  next
    case True
    let ?mid = "tdiv (start + end') 2"
    have mid: "start < ?mid" "?mid < end'"
      using tdiv_between[OF True] by simp_all
    have range: "0 \<le> ?mid" "?mid < int (length arr)"
      using mid "1.prems"(2,4) by simp_all
    have ix: "index arr ?mid = Inr (arr ! nat ?mid)"
      using range by (simp add: index_def)
    show ?thesis
    proof (cases "arr ! nat ?mid < N")
      case less: True
      have step: "binSearch_loop N arr start end' = binSearch_loop N arr ?mid end'"
        using True ix less by (simp add: binSearch_loop.simps[of N arr start end'])
      have "\<exists>r. binSearch_loop N arr ?mid end' = Inr r \<and> ?mid < r \<and> r \<le> end' \<and>
           (\<forall>i. 0 \<le> i \<and> i < r \<longrightarrow> arr ! nat i < N) \<and>
           (r < int (length arr) \<longrightarrow> N \<le> arr ! nat r)"
        by (rule "1.IH"(1)[OF True ix less inc])
           (use mid range less "1.prems"(4,6) in simp_all)
      then show ?thesis
        using step mid by auto
    next
      case nless: False
      show ?thesis
      proof (cases "N < arr ! nat ?mid")
        case greater: True
        have step: "binSearch_loop N arr start end' = binSearch_loop N arr start ?mid"
          using True ix nless greater by (simp add: binSearch_loop.simps[of N arr start end'])
        have "\<exists>r. binSearch_loop N arr start ?mid = Inr r \<and> start < r \<and> r \<le> ?mid \<and>
           (\<forall>i. 0 \<le> i \<and> i < r \<longrightarrow> arr ! nat i < N) \<and>
           (r < int (length arr) \<longrightarrow> N \<le> arr ! nat r)"
          by (rule "1.IH"(2)[OF True ix nless greater inc])
             (use mid range greater "1.prems"(2,5) in simp_all)
        then show ?thesis
          using step mid by auto
      next
        case False
        then have eq: "arr ! nat ?mid = N"
          using nless by simp
        have step: "binSearch_loop N arr start end' = Inr ?mid"
          using True ix eq by (simp add: binSearch_loop.simps[of N arr start end'])
        have "arr ! nat i < N" if "0 \<le> i" "i < ?mid" for i
          using increasing_nth[OF inc that range(2)] eq by simp
        then show ?thesis
          using step mid eq by auto
      qed
    qed
  qed
qed

lemma binSearch_correct:
  assumes "sorted_wrt (<) arr"
  shows "\<exists>r. binSearch N arr = Inr r \<and> 0 \<le> r \<and> r \<le> int (length arr) \<and>
           (\<forall>i. 0 \<le> i \<and> i < r \<longrightarrow> arr ! nat i < N) \<and>
           (r < int (length arr) \<longrightarrow> N \<le> arr ! nat r)"
proof -
  have "\<exists>r. binSearch_loop N arr (- 1) (int (length arr)) = Inr r \<and> - 1 < r \<and>
           r \<le> int (length arr) \<and>
           (\<forall>i. 0 \<le> i \<and> i < r \<longrightarrow> arr ! nat i < N) \<and>
           (r < int (length arr) \<longrightarrow> N \<le> arr ! nat r)"
    by (rule binSearch_loop_correct[OF assms]) simp_all
  then show ?thesis
    by (auto simp: binSearch_def)
qed

lemma binSearch_empty: "binSearch N [] = Inr 0"
  by (simp add: binSearch_def binSearch_loop.simps[of N "[]"])

lemma binSearch_all_less:
  assumes "sorted_wrt (<) arr" and "\<forall>x \<in> set arr. x < N"
  shows "binSearch N arr = Inr (int (length arr))"
proof -
  from binSearch_correct[OF assms(1), of N] obtain r where
    r: "binSearch N arr = Inr r" "0 \<le> r" "r \<le> int (length arr)"
       "r < int (length arr) \<longrightarrow> N \<le> arr ! nat r"
    by blast
  have "\<not> r < int (length arr)"
  proof
    assume lt: "r < int (length arr)"
    then have "arr ! nat r \<in> set arr"
      using r(2) by (simp add: nat_less_iff)
    then show False
      using assms(2) r(4) lt by fastforce
  qed
  then show ?thesis
    using r by simp
qed

section \<open>What the handle's DropPrefix, DropPostfix and Slice return\<close>

lemma validRope_New: "int (length s) < 9223372036854775808 \<Longrightarrow> validRope (New s)"
  by (simp add: validRope_def New_def emptyRope_def)

lemma valid_nonNil: "\<forall>b \<in> set bs. validRope b \<Longrightarrow> \<forall>y \<in> set (nonNil bs). valid y"
proof (induction bs)
  case Nil
  show ?case by simp
next
  case (Cons b bs)
  then show ?case
    by (cases "node b") (auto simp: validRope_def)
qed

lemma validRope_Concat:
  "validRope a \<Longrightarrow> \<forall>b \<in> set bs. validRope b \<Longrightarrow>
   (\<forall>n. node (Concat a bs) = Some n \<longrightarrow> fits n) \<Longrightarrow> validRope (Concat a bs)"
proof (induction a bs rule: Concat.induct)
  case (1 r)
  then show ?case by simp
next
  case (2 x rhs)
  then show ?case by simp
next
  case (3 n x rhs)
  have f: "fits (concMany (ropeN n) (nonNil (x # rhs)))"
    using "3.prems"(3) by simp
  have "\<forall>y \<in> set (ropeN n # nonNil (x # rhs)). valid y"
    using "3.prems"(1) valid_nonNil[OF "3.prems"(2)] by (simp add: validRope_def)
  then have "valid (concMany (ropeN n) (nonNil (x # rhs)))"
    using f by (rule concMany_valid)
  then show ?case
    using f by (simp add: validRope_def)
qed

lemma String_DropPrefix:
  "validRope r \<Longrightarrow> in64 k \<Longrightarrow> String (DropPrefix r k) = drop (nat k) (String r)"
  by (cases "node r")
     (auto simp: DropPrefix_def String_content validRope_def dropPrefix_valid_content)

lemma String_DropPostfix:
  "validRope r \<Longrightarrow> in64 k \<Longrightarrow> String (DropPostfix r k) = drop (nat k) (String r)"
  by (cases "node r")
     (auto simp: DropPostfix_def String_content validRope_def dropPrefix_valid_content)

lemma validRope_DropPostfix: "validRope r \<Longrightarrow> in64 k \<Longrightarrow> validRope (DropPostfix r k)"
  by (cases "node r")
     (auto simp: DropPostfix_def validRope_def dropPrefix_valid_content fits_def)

lemma Slice_empty:
  "(if start < 0 then 0 else start) \<ge> end' \<Longrightarrow> Slice r start end' = emptyRope"
  by (simp add: Slice_def Let_def)

lemma Slice_negative_start: "start < 0 \<Longrightarrow> Slice r start end' = Slice r 0 end'"
  by (simp add: Slice_def Let_def)

lemma String_Slice:
  assumes "validRope r" and "in64 start" and "in64 end'"
    and "(if start < 0 then 0 else start) < end'"
  shows "String (Slice r start end') =
     drop (nat (if start < 0 then 0 else start)) (drop (nat end') (String r))"
proof -
  have s: "in64 (if start < 0 then 0 else start)"
    using assms(2) by (simp add: in64_def)
  have "String (Slice r start end') =
      String (DropPrefix (DropPostfix r end') (if start < 0 then 0 else start))"
    using assms(4) by (simp add: Slice_def Let_def)
  also have "\<dots> = drop (nat (if start < 0 then 0 else start)) (String (DropPostfix r end'))"
    by (rule String_DropPrefix[OF validRope_DropPostfix[OF assms(1,3)] s])
  also have "String (DropPostfix r end') = drop (nat end') (String r)"
    by (rule String_DropPostfix[OF assms(1,3)])
  finally show ?thesis .
qed

section \<open>The cache is read out of range\<close>

lemma index_at_length: "index xs (int (length xs)) = Inl IndexOutOfRange"
  by (simp add: index_def)

lemma getFibCache_panics: "getFibCache cache N = Some (Inl IndexOutOfRange)"
  by (simp add: getFibCache_def index_at_length)

lemma reverseFib_panics: "reverseFib cache N = Some (Inl IndexOutOfRange)"
  by (simp add: reverseFib_def getFibCache_panics andThen_def)

lemma Rebalance_panics: "Rebalance cache r = Some (Inl IndexOutOfRange)"
  by (simp add: Rebalance_def getFibCache_panics andThen_def)

lemma isBalanced_empty:
  "isBalanced cache (Rope None) = Some (Inr (True, cache))"
  "isBalanced cache emptyRope = Some (Inr (True, cache))"
  by (simp_all add: isBalanced_def emptyRope_def)

lemma isBalanced_panics:
  "node r = Some n \<Longrightarrow> n \<noteq> emptyNode \<Longrightarrow> isBalanced cache r = Some (Inl IndexOutOfRange)"
  by (simp add: isBalanced_def reverseFib_panics andThen_def)

section \<open>The reader\<close>

lemma pushSubtree_ropeN: "pushSubtree r (ropeN n) = Inl InterfaceConversion"
  by simp

lemma NewReader_Concat:
  "NewReader (Concat (New ''abc'') [New ''def'']) = Inl InterfaceConversion"
  by code_simp

lemma nextNode_empty_stack: "stack r = [] \<Longrightarrow> nextNode r = Inl SliceBoundsOutOfRange"
  by (simp add: nextNode_def)

lemma Read_leaf_exhausted:
  "stack r = [] \<Longrightarrow> pos r = int (length (cur r)) \<Longrightarrow> Read r k = Some (Inl SliceBoundsOutOfRange)"
  by (simp add: Read_def Read_loop.simps[of r] nextNode_empty_stack andThen_def)

section \<open>The walk of Rebalance, given the cache\<close>

lemma rebalance_walk_bucket_grew:
  "walkLeaves (conc (leaf ''abc'') (leaf ''def'') 0 0) (rebalanceLeaf fibCache)
     (replicate 5 (B None 0)) = Inl (BucketGrew 2 4)"
  by code_simp

lemma rebalance_walk_reorders:
  "walkLeaves (conc (leaf ''a'') (leaf ''bcd'') 0 0) (rebalanceLeaf fibCache)
     (replicate 5 (B None 0)) =
   Inr [B (Some (leaf ''a'')) 1, B None 0, B (Some (leaf ''bcd'')) 3, B None 0, B None 0] \<and>
   map_option content (B_n (rebalanceFold
     [B (Some (leaf ''a'')) 1, B None 0, B (Some (leaf ''bcd'')) 3, B None 0, B None 0]
     (B None 0))) = Some ''bcda''"
  by code_simp

section \<open>Claims the code does not meet\<close>

text \<open>
  C1.  The claim: \<open>Rebalance(r)\<close> returns a rope with the content of \<open>r\<close> that is balanced.
  The code: \<open>Rebalance\<close> asks \<open>getFibCache\<close> for the cache first, and that call reads
  \<open>fibCache[len(fibCache)]\<close>; for the rope \<open>New("a").Concat(New("bcd"))\<close>, whose content
  is \<open>abcd\<close>, the call panics and no rope is returned.
\<close>

theorem Rebalance_a_bcd_panics:
  "String (Concat (New ''a'') [New ''bcd'']) = ''abcd'' \<and>
   Rebalance fibCache (Concat (New ''a'') [New ''bcd'']) = Some (Inl IndexOutOfRange)"
proof -
  have "String (Concat (New ''a'') [New ''bcd'']) = ''abcd''"
    by code_simp
  then show ?thesis
    by (simp add: Rebalance_panics)
qed

text \<open>
  C2.  The claim: \<open>r.Slice(start, end)\<close> materializes to the bytes \<open>start\<close> to \<open>end\<close> of the
  content.  The code: \<open>Slice\<close> calls \<open>DropPostfix(end)\<close>, which calls \<open>dropPrefix(end)\<close> on
  the root, so the first \<open>end\<close> bytes are dropped instead of kept.  On the rope
  \<open>New("a").Concat(New("bc")).Concat(New("def"))\<close> with content \<open>abcdef\<close>, \<open>Slice(2, 5)\<close> is
  empty instead of \<open>cde\<close>; on \<open>New("abcdef")\<close>, \<open>Slice(-5, 2)\<close> is \<open>cdef\<close> instead of \<open>ab\<close>
  and \<open>Slice(0, 6)\<close> is empty.
\<close>

theorem Slice_abcdef_2_5:
  "String (Concat (Concat (New ''a'') [New ''bc'']) [New ''def'']) = ''abcdef'' \<and>
   String (Slice (Concat (Concat (New ''a'') [New ''bc'']) [New ''def'']) 2 5) = [] \<and>
   String (Slice (New ''abcdef'') (- 5) 2) = ''cdef'' \<and>
   String (Slice (New ''abcdef'') 0 6) = []"
  by code_simp

text \<open>
  C4.  The claim: reading a rope to exhaustion with a buffer of \<open>k \<ge> 1\<close> bytes yields its
  content and then end-of-file, once.  The code, on the first two ropes of \<open>readerTests\<close>
  in reader_test.go with the two-byte buffer of \<open>TestShortRead\<close>: for \<open>leaf("abc")\<close> the
  read after the last byte panics in \<open>nextNode\<close>, which cuts an empty stack; for
  \<open>conc(leaf("abc"), leaf("def"), 0, 0)\<close> the reader reports end-of-file after \<open>abc\<close>.
\<close>

theorem Reader_short_read:
  "(case NewReader (Rope (Some (leaf ''abc''))) of
      Inl e \<Rightarrow> Some (Inl e) | Inr r \<Rightarrow> readAll r 2 []) = Some (Inl SliceBoundsOutOfRange) \<and>
   String (Rope (Some (conc (leaf ''abc'') (leaf ''def'') 0 0))) = ''abcdef'' \<and>
   (case NewReader (Rope (Some (conc (leaf ''abc'') (leaf ''def'') 0 0))) of
      Inl e \<Rightarrow> Some (Inl e) | Inr r \<Rightarrow> readAll r 2 []) = Some (Inr ''abc'')"
  by code_simp

text \<open>
  C5.  The claim: no public operation panics, the empty rope is accepted everywhere.  The
  code, on the zero-value handle with a nil root: \<open>Rebalance\<close> panics with an index out of
  range, and the first \<open>Read\<close> of \<open>NewReader\<close> panics with slice bounds out of range; on
  \<open>New("abc")\<close>, \<open>isBalanced\<close> panics with an index out of range.
\<close>

theorem empty_rope_panics:
  "Rebalance fibCache (Rope None) = Some (Inl IndexOutOfRange) \<and>
   (case NewReader (Rope None) of
      Inl e \<Rightarrow> Some (Inl e) | Inr r \<Rightarrow> Read r 1) = Some (Inl SliceBoundsOutOfRange) \<and>
   isBalanced fibCache (New ''abc'') = Some (Inl IndexOutOfRange)"
  by code_simp

text \<open>
  C6.  The claim: \<open>isBalanced(r)\<close> is true exactly when the length of \<open>r\<close> is at most
  \<open>F[depth(r) + 2]\<close>.  The code, on \<open>New("a")\<close>, of length 1 and depth 0 with \<open>F[2] = 3\<close>:
  \<open>isBalanced\<close> calls \<open>reverseFib\<close>, which panics in \<open>getFibCache\<close>.  (The search
  itself gives index 0 for length 1, with which the comparison \<open>depth <= index - 2\<close>
  would be false.)
\<close>

theorem isBalanced_a_panics:
  "Len (New ''a'') = 1 \<and> (case node (New ''a'') of Some n \<Rightarrow> depth n = 0 | None \<Rightarrow> False) \<and>
   fibCache ! 2 = 3 \<and> binSearch 1 fibCache = Inr 0 \<and>
   isBalanced fibCache (New ''a'') = Some (Inl IndexOutOfRange)"
  by code_simp

text \<open>
  C7.  The claim: \<open>DropPostfix(k)\<close> materializes to the first \<open>k\<close> bytes, \<open>abc\<close> for
  \<open>DropPostfix(3)\<close> on \<open>abcdef\<close>.  The code: \<open>DropPostfix\<close> calls \<open>dropPrefix\<close> on the root
  and returns what \<open>DropPrefix(3)\<close> returns, \<open>def\<close>.
\<close>

theorem DropPostfix_abcdef_3:
  "String (DropPrefix (New ''abcdef'') 3) = ''def'' \<and>
   String (DropPostfix (New ''abcdef'') 3) = ''def''"
  by code_simp

text \<open>
  C10.  The claim: \<open>reverseFib(N)\<close> is the index of the smallest Fibonacci-like number
  that is at least \<open>N\<close>.  The code: \<open>binSearch\<close> on the cache finds that index, 3 for
  \<open>N = 5\<close>, but \<open>reverseFib(5)\<close> panics in \<open>getFibCache\<close> before it searches.
\<close>

theorem reverseFib_5_panics:
  "binSearch 5 fibCache = Inr 3 \<and> reverseFib fibCache 5 = Some (Inl IndexOutOfRange)"
  by code_simp

end
